theory Spec2Isabelle
  imports Complex_Main
begin

text \<open>
  A model of the work-log tool \<^verbatim>\<open>another-day\<close> (\<^verbatim>\<open>src/index.js\<close>): the \<^verbatim>\<open>Iterator\<close> class,
  the date range resolver \<^verbatim>\<open>resolveDays\<close>, and the actions of the \<^verbatim>\<open>task\<close>, \<^verbatim>\<open>break\<close> and
  \<^verbatim>\<open>show\<close> commands. Time is counted in milliseconds since 1970-01-01T00:00:00Z, as
  JavaScript and moment count it. The packages the program calls (moment, moment-range,
  commander, pad) are modelled as far as the program uses them.
\<close>

section \<open>JavaScript strings and arrays\<close>

text \<open>
  \<open>elem xs i\<close> is the array read \<^verbatim>\<open>xs[i]\<close>: \<open>None\<close> stands for \<^verbatim>\<open>undefined\<close>, which is
  what JavaScript gives past the end of an array (and what a destructuring pattern binds
  to a name with no element).
\<close>

definition elem :: "'a list \<Rightarrow> nat \<Rightarrow> 'a option" where
  "elem xs i = (if i < length xs then Some (xs ! i) else None)"

text \<open>A value that is a string or \<^verbatim>\<open>undefined\<close>, as \<^verbatim>\<open>+\<close> and \<^verbatim>\<open>RegExp.test\<close> turn it into a string.\<close>

definition str :: "string option \<Rightarrow> string" where
  "str v = (case v of None \<Rightarrow> ''undefined'' | Some s \<Rightarrow> s)"

text \<open>The truth value of a string or \<^verbatim>\<open>undefined\<close> in a condition: the empty string is falsy.\<close>

definition truthy :: "string option \<Rightarrow> bool" where
  "truthy v = (case v of None \<Rightarrow> False | Some s \<Rightarrow> s \<noteq> [])"

text \<open>
  \<^verbatim>\<open>s.split(sep)\<close> for a string separator: the pieces between the occurrences of \<open>sep\<close>,
  found from left to right; an empty separator splits into the single characters.
  \<open>split_from sep cur rest\<close> has read \<open>cur\<close> since the last separator.
\<close>

fun split_from :: "string \<Rightarrow> string \<Rightarrow> string \<Rightarrow> string list" where
  "split_from sep cur [] = [cur]"
| "split_from sep cur (c # cs) =
     (if sep \<noteq> [] \<and> take (length sep) (c # cs) = sep
      then cur # split_from sep [] (drop (length sep) (c # cs))
      else split_from sep (cur @ [c]) cs)"

definition split :: "string \<Rightarrow> string \<Rightarrow> string list" where
  "split s sep = (if sep = [] then map (\<lambda>c. [c]) s else split_from sep [] s)"

text \<open>\<^verbatim>\<open>xs.join(sep)\<close> on an array of strings.\<close>

fun join :: "string list \<Rightarrow> string \<Rightarrow> string" where
  "join [] sep = []"
| "join [x] sep = x"
| "join (x # y # ys) sep = x @ sep @ join (y # ys) sep"

text \<open>
  What \<^verbatim>\<open>join\<close> writes for an element that is a boolean or \<^verbatim>\<open>undefined\<close>: \<^verbatim>\<open>undefined\<close>
  gives the empty string, a boolean its name.
\<close>

definition element_text :: "bool option \<Rightarrow> string" where
  "element_text v = (case v of None \<Rightarrow> [] | Some b \<Rightarrow> (if b then ''true'' else ''false''))"

subsection \<open>Decimal digits\<close>

definition digit_char :: "nat \<Rightarrow> char" where
  "digit_char d = ''0123456789'' ! (d mod 10)"

text \<open>The decimal text of a natural number, as \<^verbatim>\<open>'' + n\<close> gives it.\<close>

function nat_text :: "nat \<Rightarrow> string" where
  "nat_text n = (if n < 10 then [digit_char n] else nat_text (n div 10) @ [digit_char (n mod 10)])"
  by pat_completeness auto
termination
  by (relation "measure (\<lambda>n. n)") auto

declare nat_text.simps [simp del]

text \<open>
  moment's \<^verbatim>\<open>zeroFill(number, targetLength)\<close>, which writes the fields of a format:
  the sign, then zeros up to the target length, then the digits.
\<close>

definition zeroFill :: "int \<Rightarrow> nat \<Rightarrow> string" where
  "zeroFill number targetLength =
     (let absNumber = nat_text (nat \<bar>number\<bar>)
      in (if number \<ge> 0 then [] else ''-'')
         @ replicate (targetLength - length absNumber) CHR ''0'' @ absNumber)"

definition digit_val :: "char \<Rightarrow> nat option" where
  "digit_val c = map_of
     [(CHR ''0'', 0), (CHR ''1'', 1), (CHR ''2'', 2), (CHR ''3'', 3), (CHR ''4'', 4),
      (CHR ''5'', 5), (CHR ''6'', 6), (CHR ''7'', 7), (CHR ''8'', 8), (CHR ''9'', 9)] c"

definition is_digit :: "char \<Rightarrow> bool" where
  "is_digit c = (digit_val c \<noteq> None)"

text \<open>The number a string of digits denotes (read after the string is known to be digits).\<close>

fun digits_val :: "nat \<Rightarrow> string \<Rightarrow> nat" where
  "digits_val acc [] = acc"
| "digits_val acc (c # cs) =
     digits_val (10 * acc + (case digit_val c of None \<Rightarrow> 0 | Some d \<Rightarrow> d)) cs"

section \<open>The calendar\<close>

text \<open>
  Days are numbered from 1970-01-01 (day 0), in the proleptic Gregorian calendar of
  JavaScript's \<^verbatim>\<open>Date\<close>, which moment reads and writes dates with. \<open>DayFromYear\<close>
  and the leap year rule are those of the ECMAScript definition of \<^verbatim>\<open>Date\<close>;
  \<open>YearFromDay n\<close> computes the year that contains day \<open>n\<close> from an estimate that is off
  by at most one (lemma \<open>YearFromDay_bounds\<close> below).
\<close>

definition DayFromYear :: "int \<Rightarrow> int" where
  "DayFromYear y =
     365 * (y - 1970) + (y - 1969) div 4 - (y - 1901) div 100 + (y - 1601) div 400"

definition InLeapYear :: "int \<Rightarrow> bool" where
  "InLeapYear y =
     (if y mod 400 = 0 then True else if y mod 100 = 0 then False else y mod 4 = 0)"

definition YearFromDay :: "int \<Rightarrow> int" where
  "YearFromDay n =
     (let y = 1970 + (400 * n) div 146097
      in if n < DayFromYear y then y - 1
         else if DayFromYear (y + 1) \<le> n then y + 1
         else y)"

definition leap_day :: "bool \<Rightarrow> int" where
  "leap_day leap = (if leap then 1 else 0)"

text \<open>The month (1 to 12) of the day \<open>d\<close> of a year (0 is January 1st), and the day a month starts.\<close>

definition MonthFromDay :: "bool \<Rightarrow> int \<Rightarrow> int" where
  "MonthFromDay leap d =
     (let l = leap_day leap
      in if d < 31 then 1
         else if d < 59 + l then 2
         else if d < 90 + l then 3
         else if d < 120 + l then 4
         else if d < 151 + l then 5
         else if d < 181 + l then 6
         else if d < 212 + l then 7
         else if d < 243 + l then 8
         else if d < 273 + l then 9
         else if d < 304 + l then 10
         else if d < 334 + l then 11
         else 12)"

definition MonthStart :: "bool \<Rightarrow> int \<Rightarrow> int" where
  "MonthStart leap m =
     (let l = leap_day leap
      in if m \<le> 1 then 0
         else if m = 2 then 31
         else if m = 3 then 59 + l
         else if m = 4 then 90 + l
         else if m = 5 then 120 + l
         else if m = 6 then 151 + l
         else if m = 7 then 181 + l
         else if m = 8 then 212 + l
         else if m = 9 then 243 + l
         else if m = 10 then 273 + l
         else if m = 11 then 304 + l
         else 334 + l)"

definition daysInMonth :: "int \<Rightarrow> int \<Rightarrow> int" where
  "daysInMonth y m =
     (if m = 2 then (if InLeapYear y then 29 else 28)
      else if m = 4 \<or> m = 6 \<or> m = 9 \<or> m = 11 then 30
      else 31)"

definition civil_from_days :: "int \<Rightarrow> int \<times> int \<times> int" where
  "civil_from_days n =
     (let y = YearFromDay n;
          d = n - DayFromYear y;
          m = MonthFromDay (InLeapYear y) d
      in (y, m, d - MonthStart (InLeapYear y) m + 1))"

definition days_from_civil :: "int \<Rightarrow> int \<Rightarrow> int \<Rightarrow> int" where
  "days_from_civil y m d = DayFromYear y + MonthStart (InLeapYear y) m + d - 1"

section \<open>The Iterator class\<close>

text \<open>
  \<^verbatim>\<open>class Iterator\<close> of \<^verbatim>\<open>src/index.js\<close> keeps the array it is built from and a cursor
  \<^verbatim>\<open>index\<close>. Every object returned by \<^verbatim>\<open>[Symbol.iterator]()\<close> closes over the same
  \<^verbatim>\<open>this\<close>, so the cursor is the only state: the model passes the object in and returns
  it updated.
\<close>

record 'a iterator =
  elements :: "'a list"
  index :: nat

definition Iterator :: "'a list \<Rightarrow> 'a iterator" where
  "Iterator es = \<lparr>elements = es, index = 0\<rparr>"

text \<open>
  \<^verbatim>\<open>next()\<close>: \<open>Some v\<close> stands for \<^verbatim>\<open>{ value: v, done: false }\<close> and \<open>None\<close> for
  \<^verbatim>\<open>{ done: true }\<close>. The else branch writes \<^verbatim>\<open>this.index = 0\<close>.
\<close>

definition it_next :: "'a iterator \<Rightarrow> 'a option \<times> 'a iterator" where
  "it_next it =
     (if index it < length (elements it)
      then (Some (elements it ! index it), it\<lparr>index := index it + 1\<rparr>)
      else (None, it\<lparr>index := 0\<rparr>))"

text \<open>
  \<^verbatim>\<open>peek()\<close> returns \<^verbatim>\<open>this.elements[this.index]\<close>; reading a JavaScript array past its
  end gives \<^verbatim>\<open>undefined\<close>, which is \<open>None\<close> here.
\<close>

definition peek :: "'a iterator \<Rightarrow> 'a option" where
  "peek it =
     (if index it < length (elements it) then Some (elements it ! index it) else None)"

text \<open>
  A \<^verbatim>\<open>for (const e of entries)\<close> loop that runs to the end: it calls \<^verbatim>\<open>next()\<close> until
  \<^verbatim>\<open>done\<close> is reported. \<open>for_of\<close> returns the values the loop body saw, in order, and the
  iterator object as the loop leaves it.
\<close>

function for_of :: "'a iterator \<Rightarrow> 'a list \<times> 'a iterator" where
  "for_of it =
     (case it_next it of
        (None, it') \<Rightarrow> ([], it')
      | (Some v, it') \<Rightarrow> (case for_of it' of (vs, it'') \<Rightarrow> (v # vs, it'')))"
  by pat_completeness auto
termination
  by (relation "measure (\<lambda>it. length (elements it) - index it)")
     (auto simp: it_next_def split: if_splits)

declare for_of.simps [simp del]

section \<open>The host and moments\<close>

text \<open>
  What a run takes from its host: the clock (\<^verbatim>\<open>moment()\<close>, read as one instant for the
  whole run), the offset of the local time zone from UTC (taken as constant over the days a
  run looks at), \<^verbatim>\<open>os.EOL\<close>, and what \<^verbatim>\<open>pad\<close> does with a text that is \<^verbatim>\<open>undefined\<close>. The
  \<^verbatim>\<open>pad\<close> package is not part of the sources: when \<open>padRejectsUndefined\<close> holds it throws
  on such a text, otherwise it returns a string. The theorems hold for both.
\<close>

record host =
  now :: int
  localOffset :: int
  EOL :: string
  padRejectsUndefined :: bool

text \<open>
  A moment: its instant (\<open>None\<close> for an invalid moment, whose \<^verbatim>\<open>valueOf()\<close> is \<^verbatim>\<open>NaN\<close>) and
  the offset it is displayed with (0 in UTC mode).
\<close>

record moment =
  valueOf :: "int option"
  utcOffset :: int

text \<open>
  The pattern \<^verbatim>\<open>dateFormat = '^[0-9]{4}-[0-9]{2}-[0-9]{2}$'\<close>, and the shapes \<^verbatim>\<open>HH:mm:ss\<close>,
  \<^verbatim>\<open>HH:mm\<close> and \<^verbatim>\<open>HH\<close> of a time of day.
\<close>

definition dateFormat :: "string \<Rightarrow> bool" where
  "dateFormat s =
     (length s = 10 \<and> is_digit (s ! 0) \<and> is_digit (s ! 1) \<and> is_digit (s ! 2) \<and> is_digit (s ! 3)
      \<and> s ! 4 = CHR ''-'' \<and> is_digit (s ! 5) \<and> is_digit (s ! 6)
      \<and> s ! 7 = CHR ''-'' \<and> is_digit (s ! 8) \<and> is_digit (s ! 9))"

definition timeFormat :: "string \<Rightarrow> bool" where
  "timeFormat s =
     (length s = 8 \<and> is_digit (s ! 0) \<and> is_digit (s ! 1) \<and> s ! 2 = CHR '':''
      \<and> is_digit (s ! 3) \<and> is_digit (s ! 4) \<and> s ! 5 = CHR '':''
      \<and> is_digit (s ! 6) \<and> is_digit (s ! 7))"

definition minuteFormat :: "string \<Rightarrow> bool" where
  "minuteFormat s =
     (length s = 5 \<and> is_digit (s ! 0) \<and> is_digit (s ! 1) \<and> s ! 2 = CHR '':''
      \<and> is_digit (s ! 3) \<and> is_digit (s ! 4))"

definition hourFormat :: "string \<Rightarrow> bool" where
  "hourFormat s = (length s = 2 \<and> is_digit (s ! 0) \<and> is_digit (s ! 1))"

text \<open>
  moment's reading of an ISO 8601 string, for the strings the program passes to it: a
  day key \<^verbatim>\<open>YYYY-MM-DD\<close>, or a day key, a space (or \<^verbatim>\<open>T\<close>) and the time field of a line,
  of the shape \<^verbatim>\<open>HH:mm:ss\<close> (what \<^verbatim>\<open>task\<close> and \<^verbatim>\<open>break\<close> write), \<^verbatim>\<open>HH:mm\<close> or \<^verbatim>\<open>HH\<close>. A
  month, day, hour, minute or second out of range makes the moment invalid; the hour 24 is
  accepted when nothing but zeros follows it. A time field with a fraction of a second or
  a zone suffix, and a string that is no ISO 8601 string and that moment hands on to
  \<^verbatim>\<open>new Date\<close>, are read as invalid here: the program writes none, and the theorems below
  speak of a time only where this reading gives an instant.
\<close>

definition parse_date :: "string \<Rightarrow> int option" where
  "parse_date s =
     (if dateFormat s
      then (let y = int (digits_val 0 (take 4 s));
                m = int (digits_val 0 (take 2 (drop 5 s)));
                d = int (digits_val 0 (drop 8 s))
            in if 1 \<le> m \<and> m \<le> 12 \<and> 1 \<le> d \<and> d \<le> daysInMonth y m
               then Some (days_from_civil y m d * 86400000)
               else None)
      else None)"

definition parse_time :: "string \<Rightarrow> int option" where
  "parse_time s =
     (if timeFormat s
      then (let h = int (digits_val 0 (take 2 s));
                m = int (digits_val 0 (take 2 (drop 3 s)));
                sec = int (digits_val 0 (drop 6 s))
            in if (h < 24 \<and> m < 60 \<and> sec < 60) \<or> (h = 24 \<and> m = 0 \<and> sec = 0)
               then Some (h * 3600000 + m * 60000 + sec * 1000)
               else None)
      else if minuteFormat s
      then (let h = int (digits_val 0 (take 2 s));
                m = int (digits_val 0 (drop 3 s))
            in if (h < 24 \<and> m < 60) \<or> (h = 24 \<and> m = 0)
               then Some (h * 3600000 + m * 60000)
               else None)
      else if hourFormat s
      then (let h = int (digits_val 0 s)
            in if h \<le> 24 then Some (h * 3600000) else None)
      else None)"

definition parse_iso :: "string \<Rightarrow> int option" where
  "parse_iso s =
     (if length s = 10 then parse_date s
      else if 10 < length s \<and> (s ! 10 = CHR '' '' \<or> s ! 10 = CHR ''T'')
      then (case parse_date (take 10 s) of
              None \<Rightarrow> None
            | Some d \<Rightarrow> (case parse_time (drop 11 s) of None \<Rightarrow> None | Some t \<Rightarrow> Some (d + t)))
      else None)"

text \<open>\<^verbatim>\<open>moment.utc(s)\<close>, \<^verbatim>\<open>moment()\<close> (local mode), \<^verbatim>\<open>moment(s)\<close> (local mode) and \<^verbatim>\<open>m.utc()\<close>.\<close>

definition moment_utc :: "string \<Rightarrow> moment" where
  "moment_utc s = \<lparr>valueOf = parse_iso s, utcOffset = 0\<rparr>"

definition moment_now :: "host \<Rightarrow> moment" where
  "moment_now h = \<lparr>valueOf = Some (now h), utcOffset = localOffset h\<rparr>"

definition moment_local :: "host \<Rightarrow> string \<Rightarrow> moment" where
  "moment_local h s =
     \<lparr>valueOf = map_option (\<lambda>t. t - localOffset h) (parse_iso s), utcOffset = localOffset h\<rparr>"

definition utc :: "moment \<Rightarrow> moment" where
  "utc m = m\<lparr>utcOffset := 0\<rparr>"

text \<open>\<^verbatim>\<open>m.format('YYYY-MM-DD')\<close> and \<^verbatim>\<open>m.format('HH:mm:ss')\<close>.\<close>

definition format_date :: "moment \<Rightarrow> string" where
  "format_date m =
     (case valueOf m of
        None \<Rightarrow> ''Invalid date''
      | Some t \<Rightarrow>
          (case civil_from_days ((t + utcOffset m) div 86400000) of
             (y, mo, d) \<Rightarrow> zeroFill y 4 @ ''-'' @ zeroFill mo 2 @ ''-'' @ zeroFill d 2))"

definition format_time :: "moment \<Rightarrow> string" where
  "format_time m =
     (case valueOf m of
        None \<Rightarrow> ''Invalid date''
      | Some t \<Rightarrow>
          (let r = (t + utcOffset m) mod 86400000
           in zeroFill (r div 3600000) 2 @ '':'' @ zeroFill (r div 60000 mod 60) 2 @ '':''
              @ zeroFill (r div 1000 mod 60) 2))"

text \<open>
  \<^verbatim>\<open>m.add(n, 'days')\<close>, \<^verbatim>\<open>m.startOf('week')\<close> (the locale is \<^verbatim>\<open>sv\<close>: a week starts on Monday;
  day 0 was a Thursday), \<^verbatim>\<open>m.startOf('month')\<close> and \<^verbatim>\<open>m.endOf('day')\<close>.
\<close>

definition add_days :: "moment \<Rightarrow> int \<Rightarrow> moment" where
  "add_days m n = m\<lparr>valueOf := map_option (\<lambda>t. t + n * 86400000) (valueOf m)\<rparr>"

definition startOf_week :: "moment \<Rightarrow> moment" where
  "startOf_week m =
     m\<lparr>valueOf := map_option
         (\<lambda>t. (let n = (t + utcOffset m) div 86400000
               in (n - (n + 3) mod 7) * 86400000 - utcOffset m))
         (valueOf m)\<rparr>"

definition startOf_month :: "moment \<Rightarrow> moment" where
  "startOf_month m =
     m\<lparr>valueOf := map_option
         (\<lambda>t. (case civil_from_days ((t + utcOffset m) div 86400000) of
                 (y, mo, d) \<Rightarrow> days_from_civil y mo 1 * 86400000 - utcOffset m))
         (valueOf m)\<rparr>"

definition endOf_day :: "moment \<Rightarrow> moment" where
  "endOf_day m =
     m\<lparr>valueOf := map_option
         (\<lambda>t. (t + utcOffset m) div 86400000 * 86400000 + 86399999 - utcOffset m)
         (valueOf m)\<rparr>"

text \<open>
  \<^verbatim>\<open>a.diff(b)\<close> in milliseconds (\<open>None\<close> is \<^verbatim>\<open>NaN\<close>), and \<^verbatim>\<open>a.diff(b, 'days')\<close>, which
  drops the fraction towards zero.
\<close>

definition diff :: "moment \<Rightarrow> moment \<Rightarrow> int option" where
  "diff a b =
     (case valueOf a of
        None \<Rightarrow> None
      | Some x \<Rightarrow> (case valueOf b of None \<Rightarrow> None | Some y \<Rightarrow> Some (x - y)))"

definition diff_days :: "moment \<Rightarrow> moment \<Rightarrow> int option" where
  "diff_days a b =
     map_option (\<lambda>d. if d < 0 then - ((- d) div 86400000) else d div 86400000) (diff a b)"

section \<open>Date ranges\<close>

text \<open>
  \<^verbatim>\<open>moment.range(start, end)\<close> keeps the two moments as they are given. \<open>by_days r\<close> is
  \<^verbatim>\<open>Array.from(r.by('days'))\<close>: moment-range's iterator takes
  \<^verbatim>\<open>diff = Math.abs(start.diff(end, 'days'))\<close> and yields \<^verbatim>\<open>start.clone().add(i, 'days')\<close>
  for \<^verbatim>\<open>i = 0, 1, ...\<close> while \<^verbatim>\<open>i <= diff\<close>. With an invalid moment the difference is
  \<^verbatim>\<open>NaN\<close>, the comparison fails at once and nothing is yielded.
\<close>

type_synonym range = "moment \<times> moment"

definition by_days :: "range \<Rightarrow> moment list" where
  "by_days r =
     (case diff_days (fst r) (snd r) of
        None \<Rightarrow> []
      | Some d \<Rightarrow> map (\<lambda>i. add_days (fst r) (int i)) [0 ..< nat \<bar>d\<bar> + 1])"

text \<open>
  The object \<^verbatim>\<open>dateResolvers\<close>: its four keys in the order they are written, which is the
  order \<^verbatim>\<open>for (const key in dateResolvers)\<close> visits them, the test
  \<^verbatim>\<open>new RegExp(key).test(startArg)\<close> of each key, and the function stored under each key.
\<close>

datatype resolver = Dates | Yesterday | Week | Month

definition key_test :: "resolver \<Rightarrow> string \<Rightarrow> bool" where
  "key_test key s =
     (case key of
        Dates \<Rightarrow> dateFormat s
      | Yesterday \<Rightarrow> s = ''yesterday''
      | Week \<Rightarrow> s = ''week''
      | Month \<Rightarrow> s = ''month'')"

definition dateResolvers :: "host \<Rightarrow> resolver \<Rightarrow> string option \<Rightarrow> string option \<Rightarrow> range" where
  "dateResolvers h key first second =
     (case key of
        Dates \<Rightarrow>
          (let start = moment_utc (str first)
           in (start, if dateFormat (str second) then moment_utc (str second) else start))
      | Yesterday \<Rightarrow> (let start = add_days (moment_now h) (- 1) in (start, start))
      | Week \<Rightarrow> (startOf_week (moment_now h), moment_now h)
      | Month \<Rightarrow> (startOf_month (moment_now h), moment_now h))"

text \<open>
  \<^verbatim>\<open>resolveDays(startArg, endArg)\<close>: the range of today (in UTC) unless a key matches the
  first argument; the first key that matches decides (\<^verbatim>\<open>break\<close>).
\<close>

definition resolveDays :: "host \<Rightarrow> string option \<Rightarrow> string option \<Rightarrow> string list" where
  "resolveDays h startArg endArg =
     (let range =
        (case find (\<lambda>key. key_test key (str startArg)) [Dates, Yesterday, Week, Month] of
           None \<Rightarrow> (utc (moment_now h), utc (moment_now h))
         | Some key \<Rightarrow> dateResolvers h key startArg endArg)
      in map format_date (by_days range))"

text \<open>The key of the day with number \<open>n\<close> (day 0 is \<^verbatim>\<open>1970-01-01\<close>).\<close>

definition day_key :: "int \<Rightarrow> string" where
  "day_key n = format_date \<lparr>valueOf = Some (n * 86400000), utcOffset = 0\<rparr>"

section \<open>The store\<close>

text \<open>
  The directory \<^verbatim>\<open>~/another-day\<close> with one file per day. \<^verbatim>\<open>checkDirectory\<close> resolves unless
  \<^verbatim>\<open>fs.stat\<close> or \<^verbatim>\<open>fs.mkdir\<close> fails (\<open>directoryFails\<close>). \<^verbatim>\<open>readFile\<close> then rejects when
  \<^verbatim>\<open>fs.readFile\<close> calls back with an error: for a file that is not there, or for another
  failure of the read (\<open>readFails\<close>). \<^verbatim>\<open>writeFile\<close> then appends, creating the file, and
  rejects when \<^verbatim>\<open>fs.appendFile\<close> calls back with an error (\<open>appendFails\<close>).
\<close>

datatype error = DirectoryError | ENOENT | ReadError | AppendError | TypeError

record store =
  directoryFails :: bool
  readFails :: bool
  appendFails :: bool
  files :: "string \<rightharpoonup> string"

definition readFile :: "store \<Rightarrow> string \<Rightarrow> error + string" where
  "readFile st filename =
     (if directoryFails st then Inl DirectoryError
      else if readFails st then Inl ReadError
      else (case files st filename of None \<Rightarrow> Inl ENOENT | Some data \<Rightarrow> Inr data))"

definition writeFile :: "store \<Rightarrow> string \<Rightarrow> string \<Rightarrow> error + store" where
  "writeFile st filename chunk =
     (if directoryFails st then Inl DirectoryError
      else if appendFails st then Inl AppendError
      else Inr (st\<lparr>files := (files st)
                 (filename \<mapsto> (case files st filename of None \<Rightarrow> [] | Some data \<Rightarrow> data) @ chunk)\<rparr>))"

section \<open>The task and break commands\<close>

text \<open>
  What the program prints: the header line of \<^verbatim>\<open>show\<close>, the line of a day, the row of a
  task (the four values the template of the row is filled with: the time label, the
  project, the id and the task, each a string or \<^verbatim>\<open>undefined\<close>; the colours and the
  padding to a width are left out), and an error written by \<^verbatim>\<open>console.error\<close> under
  \<^verbatim>\<open>--verbose\<close>.
\<close>

datatype out =
  Header
  | Day string
  | Row string "string option" "string option" "string option"
  | Err error

text \<open>
  The option \<^verbatim>\<open>'-i, --id'\<close> is declared without a value, so commander sets \<^verbatim>\<open>cmd.id\<close> to
  \<^verbatim>\<open>true\<close> when the flag is given and leaves it \<^verbatim>\<open>undefined\<close> otherwise.
\<close>

definition cmd_id :: "bool \<Rightarrow> bool option" where
  "cmd_id given = (if given then Some True else None)"

text \<open>
  The line of a task, \<^verbatim>\<open>['task', time.utc().format('HH:mm:ss'), projectArg, taskArg, cmd.id].join('|')\<close>,
  and the chunk that is appended, the line and \<^verbatim>\<open>os.EOL\<close>. \<open>time\<close> is the moment the action
  builds from \<^verbatim>\<open>--time\<close> or from the clock in the zone \<^verbatim>\<open>Europe/Stockholm\<close>; the file is
  named after its date in that zone.
\<close>

definition task_line :: "moment \<Rightarrow> string \<Rightarrow> string \<Rightarrow> bool option \<Rightarrow> string" where
  "task_line time projectArg taskArg id' =
     join [''task'', format_time (utc time), projectArg, taskArg, element_text id'] ''|''"


definition break_action :: "host \<Rightarrow> store \<Rightarrow> bool \<Rightarrow> moment \<Rightarrow> store \<times> out list" where
  "break_action h st verbose time =
     (let filename = format_date time @ ''.txt'';
          chunk = join [''break'', format_time (utc time)] ''|'' @ EOL h
      in case writeFile st filename chunk of
           Inl e \<Rightarrow> (st, if verbose then [Err e] else [])
         | Inr st' \<Rightarrow> (st', []))"

section \<open>The show command\<close>

text \<open>
  \<^verbatim>\<open>Math.max(Math.round(duration.as('hours') * 2) / 2, 0.5)\<close> for a duration in
  milliseconds. \<^verbatim>\<open>Math.round\<close> rounds a half up, as \<open>round\<close> does; \<^verbatim>\<open>NaN\<close> stays \<^verbatim>\<open>NaN\<close>.
  The quotient of the milliseconds by 3600000 is a rational number here and a double in
  the program; the rounded values agree, since a double division never steps over a
  multiple of a quarter.
\<close>

definition adjusted :: "int option \<Rightarrow> rat option" where
  "adjusted duration =
     map_option (\<lambda>ms. max (of_int (round (of_int ms / 3600000 * 2 :: rat)) / 2) (1 / 2)) duration"

text \<open>The text of such a number in \<^verbatim>\<open>adjusted + 'h'\<close>: a positive multiple of one half, or \<^verbatim>\<open>NaN\<close>.\<close>

definition number_text :: "rat option \<Rightarrow> string" where
  "number_text v =
     (case v of
        None \<Rightarrow> ''NaN''
      | Some r \<Rightarrow> nat_text (nat \<lfloor>r\<rfloor>) @ (if of_int \<lfloor>r\<rfloor> = r then [] else ''.5''))"

text \<open>
  The end of a task in \<^verbatim>\<open>src/index.js\<close>: \<^verbatim>\<open>let endTime = moment().utc()\<close>, replaced by the
  time of the next entry when \<^verbatim>\<open>nextEntry\<close> is truthy.
\<close>

definition endTime :: "host \<Rightarrow> string \<Rightarrow> string option \<Rightarrow> moment" where
  "endTime h day nextEntry =
     (case nextEntry of
        None \<Rightarrow> utc (moment_now h)
      | Some n \<Rightarrow>
          (if n = [] then utc (moment_now h)
           else moment_utc (day @ '' '' @ str (elem (split n ''|'') 1))))"

text \<open>
  The body of the loop over the entries, for the entry \<^verbatim>\<open>next()\<close> returned and the value
  of \<^verbatim>\<open>entries.peek()\<close>: \<open>Inr None\<close> is \<^verbatim>\<open>continue\<close>, \<open>Inr (Some row)\<close> a row that is logged,
  \<open>Inl e\<close> an exception.
\<close>

definition show_entry :: "host \<Rightarrow> string \<Rightarrow> string \<Rightarrow> string option \<Rightarrow> error + out option" where
  "show_entry h day entry nextEntry =
     (if entry = [] then Inr None
      else
        (let parts = split entry ''|'';
             type = elem parts 0;
             time = elem parts 1;
             project = elem parts 2;
             task = elem parts 3;
             id' = elem parts 4
         in if type = Some ''break'' then Inr None
            else
              (let startTime = moment_utc (day @ '' '' @ str time);
                   duration = diff (endTime h day nextEntry) startTime;
                   timestamp = number_text (adjusted duration) @ ''h'';
                   timestamp = (if truthy nextEntry then timestamp else ''~'' @ timestamp)
               in if padRejectsUndefined h \<and> (project = None \<or> id' = None)
                  then Inl TypeError
                  else Inr (Some (Row timestamp project id' task)))))"

text \<open>
  The loop \<^verbatim>\<open>for (const entry of entries)\<close> with what has been logged so far: it ends when
  \<^verbatim>\<open>next()\<close> reports done or when the body throws.
\<close>

function show_entries ::
  "host \<Rightarrow> string \<Rightarrow> string iterator \<Rightarrow> out list \<Rightarrow> error option \<times> out list" where
  "show_entries h day entries logged =
     (case it_next entries of
        (None, entries') \<Rightarrow> (None, logged)
      | (Some entry, entries') \<Rightarrow>
          (case show_entry h day entry (peek entries') of
             Inl e \<Rightarrow> (Some e, logged)
           | Inr None \<Rightarrow> show_entries h day entries' logged
           | Inr (Some row) \<Rightarrow> show_entries h day entries' (logged @ [row])))"
  by pat_completeness auto
termination
  by (relation "measure (\<lambda>(h, day, entries, logged). length (elements entries) - index entries)")
     (auto simp: it_next_def split: if_splits)

declare show_entries.simps [simp del]

text \<open>
  The \<^verbatim>\<open>try\<close> block of one day: the line of the day is logged first, then the file is
  read and its lines are shown. The result is what the block logged and the exception that
  ended it, if one did.
\<close>

definition try_day :: "host \<Rightarrow> store \<Rightarrow> string \<Rightarrow> error option \<times> out list" where
  "try_day h st day =
     (case readFile st (day @ ''.txt'') of
        Inl e \<Rightarrow> (Some e, [Day day])
      | Inr data \<Rightarrow> show_entries h day (Iterator (split data (EOL h))) [Day day])"

text \<open>
  The loop over the days: the \<^verbatim>\<open>catch\<close> block logs the error under \<^verbatim>\<open>--verbose\<close> and
  continues with the next day.
\<close>

fun show_days :: "host \<Rightarrow> store \<Rightarrow> bool \<Rightarrow> string list \<Rightarrow> out list \<Rightarrow> out list" where
  "show_days h st verbose [] logged = logged"
| "show_days h st verbose (day # days) logged =
     (case try_day h st day of
        (None, lines) \<Rightarrow> show_days h st verbose days (logged @ lines)
      | (Some e, lines) \<Rightarrow>
          show_days h st verbose days (logged @ lines @ (if verbose then [Err e] else [])))"

definition show_action ::
  "host \<Rightarrow> store \<Rightarrow> bool \<Rightarrow> string option \<Rightarrow> string option \<Rightarrow> out list" where
  "show_action h st verbose startArg endArg =
     show_days h st verbose (resolveDays h startArg endArg) [Header]"

subsection \<open>The earlier variant of the loop body\<close>

text \<open>
  The variant of the \<^verbatim>\<open>show\<close> action in \<^verbatim>\<open>src/unnamed/part_000\<close> (its second program) reads
  the times in local mode, ends an entry with no next entry at the clock or at the end of
  the day, whichever is earlier, and logs the label with no mark:
  \<^verbatim>\<open>let endTime = moment(day).endOf('day'); if (nextEntry) {...} else if (moment() < endTime) { endTime = moment(); }\<close>.
\<close>

definition endTime_variant :: "host \<Rightarrow> string \<Rightarrow> string option \<Rightarrow> moment" where
  "endTime_variant h day nextEntry =
     (let endOfDay = endOf_day (moment_local h day)
      in if truthy nextEntry
         then moment_local h (day @ '' '' @ str (elem (split (str nextEntry) ''|'') 1))
         else (case valueOf endOfDay of
                 None \<Rightarrow> endOfDay
               | Some e \<Rightarrow> if now h < e then moment_now h else endOfDay))"

definition show_entry_variant ::
  "host \<Rightarrow> string \<Rightarrow> string \<Rightarrow> string option \<Rightarrow> error + out option" where
  "show_entry_variant h day entry nextEntry =
     (let parts = split entry ''|'';
          type = elem parts 0;
          time = elem parts 1;
          project = elem parts 2;
          task = elem parts 3;
          id' = elem parts 4
      in if entry = [] \<or> type = Some ''break'' then Inr None
         else
           (let startTime = moment_local h (day @ '' '' @ str time);
                duration = diff (endTime_variant h day nextEntry) startTime;
                timestamp = number_text (adjusted duration) @ ''h''
            in if padRejectsUndefined h \<and> (project = None \<or> id' = None)
               then Inl TypeError
               else Inr (Some (Row timestamp project id' task))))"

section \<open>The command line of task\<close>





















section \<open>An example\<close>

text \<open>
  A host whose clock stands at 2018-06-17 10:00:00 UTC, two hours east of UTC, and a store
  with a file for 2018-06-15 and one for 2018-06-17, and none for the day between them.
\<close>

definition example_host :: host where
  "example_host =
     \<lparr>now = 1529229600000, localOffset = 7200000, EOL = ''\<newline>'', padRejectsUndefined = True\<rparr>"

definition example_store :: store where
  "example_store =
     \<lparr>directoryFails = False, readFails = False, appendFails = False,
      files = [''2018-06-15.txt'' \<mapsto> ''task|09:00:00|A|a|\<newline>'',
               ''2018-06-17.txt'' \<mapsto> ''task|09:30:00|B|b|true\<newline>'']\<rparr>"

section \<open>Predicates of the theorems\<close>



text \<open>The rows and the lines of a day among what is logged.\<close>

definition is_row :: "out \<Rightarrow> bool" where
  "is_row x = (case x of Row label project id' task \<Rightarrow> True | _ \<Rightarrow> False)"

definition is_day :: "out \<Rightarrow> bool" where
  "is_day x = (case x of Day day \<Rightarrow> True | _ \<Rightarrow> False)"

text \<open>
  What the body of the loop over the days logs for one day: the lines of the \<^verbatim>\<open>try\<close> block
  and, when it threw, what the \<^verbatim>\<open>catch\<close> block logs.
\<close>

definition day_output :: "host \<Rightarrow> store \<Rightarrow> bool \<Rightarrow> string \<Rightarrow> out list" where
  "day_output h st verbose day =
     (case try_day h st day of
        (None, lines) \<Rightarrow> lines
      | (Some e, lines) \<Rightarrow> lines @ (if verbose then [Err e] else []))"

section \<open>Lemmas: the loop over the entries, split and join\<close>

lemma show_entries_done:
  "length (elements entries) \<le> index entries \<Longrightarrow> show_entries h day entries logged = (None, logged)"
  by (subst show_entries.simps) (simp add: it_next_def)

lemma show_entries_step:
  assumes "index entries < length (elements entries)"
  shows "show_entries h day entries logged =
     (case show_entry h day (elements entries ! index entries)
             (elem (elements entries) (Suc (index entries))) of
        Inl e \<Rightarrow> (Some e, logged)
      | Inr None \<Rightarrow> show_entries h day (entries\<lparr>index := Suc (index entries)\<rparr>) logged
      | Inr (Some row) \<Rightarrow>
          show_entries h day (entries\<lparr>index := Suc (index entries)\<rparr>) (logged @ [row]))"
  using assms by (subst show_entries.simps) (simp add: it_next_def peek_def elem_def)


lemma split_from_last_field:
  "c \<notin> set f \<Longrightarrow> split_from [c] cur f = [cur @ f]"
  by (induction f arbitrary: cur) auto

lemma split_from_field:
  "c \<notin> set f \<Longrightarrow> split_from [c] cur (f @ c # rest) = (cur @ f) # split_from [c] [] rest"
  by (induction f arbitrary: cur) auto


lemma split_five_fields:
  assumes "c \<notin> set a" "c \<notin> set b" "c \<notin> set p" "c \<notin> set t" "c \<notin> set i"
  shows "split (join [a, b, p, t, i] [c]) [c] = [a, b, p, t, i]"
  using assms
  by (simp add: split_def split_from_field [where cur = "[]", simplified] split_from_last_field)

section \<open>Lemmas: digits\<close>

lemma digit_cases: "d < 10 \<Longrightarrow> d = 0 \<or> d = 1 \<or> d = 2 \<or> d = 3 \<or> d = 4 \<or> d = 5 \<or> d = 6 \<or> d = 7 \<or> d = 8 \<or> d = (9::nat)"
  by arith

lemma digit_val_digit_char: "d < 10 \<Longrightarrow> digit_val (digit_char d) = Some d"
  using digit_cases [of d] by (auto simp: digit_val_def digit_char_def)

lemma is_digit_digit_char: "d < 10 \<Longrightarrow> is_digit (digit_char d)"
  by (simp add: is_digit_def digit_val_digit_char)

lemma digit_char_not_sep: "d < 10 \<Longrightarrow> digit_char d \<noteq> CHR ''|''"
  using digit_cases [of d] by (auto simp: digit_char_def)

lemma nat_text_1: "n < 10 \<Longrightarrow> nat_text n = [digit_char n]"
  by (subst nat_text.simps) simp

lemma nat_text_2: "10 \<le> n \<Longrightarrow> n < 100 \<Longrightarrow> nat_text n = [digit_char (n div 10), digit_char (n mod 10)]"
  by (subst nat_text.simps) (simp add: nat_text_1)

lemma nat_text_3:
  "100 \<le> n \<Longrightarrow> n < 1000 \<Longrightarrow>
   nat_text n = [digit_char (n div 100), digit_char (n div 10 mod 10), digit_char (n mod 10)]"
proof -
  assume n: "100 \<le> n" "n < 1000"
  have "n div 10 div 10 = n div 100" by (simp add: div_mult2_eq [symmetric])
  with n show ?thesis
    by (subst nat_text.simps) (simp add: nat_text_2)
qed

lemma nat_text_4:
  "1000 \<le> n \<Longrightarrow> n < 10000 \<Longrightarrow>
   nat_text n = [digit_char (n div 1000), digit_char (n div 100 mod 10),
                 digit_char (n div 10 mod 10), digit_char (n mod 10)]"
proof -
  assume n: "1000 \<le> n" "n < 10000"
  have "n div 10 div 100 = n div 1000" "n div 10 div 10 = n div 100"
    by (simp_all add: div_mult2_eq [symmetric])
  with n show ?thesis
    by (subst nat_text.simps) (simp add: nat_text_3)
qed

lemma digit_char_0: "digit_char 0 = CHR ''0''"
  by (simp add: digit_char_def)

lemma zeroFill_2:
  assumes "0 \<le> n" "n < 100"
  shows "zeroFill n 2 = [digit_char (nat n div 10), digit_char (nat n mod 10)]"
proof (cases "nat n < 10")
  case True
  then show ?thesis using assms
    by (simp add: zeroFill_def nat_text_1 digit_char_0)
next
  case False
  then show ?thesis using assms
    by (simp add: zeroFill_def nat_text_2)
qed

lemma replicate_small:
  "replicate 3 c = [c, c, c]" "replicate 2 c = [c, c]" "replicate (Suc 0) c = [c]"
  by (simp_all add: numeral_3_eq_3 numeral_2_eq_2)

lemma zeroFill_4:
  assumes "0 \<le> n" "n < 10000"
  shows "zeroFill n 4 = [digit_char (nat n div 1000), digit_char (nat n div 100 mod 10),
                         digit_char (nat n div 10 mod 10), digit_char (nat n mod 10)]"
proof -
  consider "nat n < 10" | "10 \<le> nat n" "nat n < 100" | "100 \<le> nat n" "nat n < 1000"
    | "1000 \<le> nat n" "nat n < 10000"
    using assms by linarith
  then show ?thesis
  proof cases
    case 1
    from 1 have "nat n div 1000 = 0" "nat n div 100 = 0" "nat n div 10 = 0" "nat n mod 10 = nat n"
      by simp_all
    then show ?thesis using assms 1
      by (simp add: zeroFill_def nat_text_1 digit_char_0 replicate_small)
  next
    case 2
    from 2 have "nat n div 1000 = 0" "nat n div 100 = 0"
      by simp_all
    then show ?thesis using assms 2
      by (simp add: zeroFill_def nat_text_2 digit_char_0 replicate_small)
  next
    case 3
    from 3 have "nat n div 1000 = 0" "nat n div 100 mod 10 = nat n div 100"
      by simp_all
    then show ?thesis using assms 3
      by (simp add: zeroFill_def nat_text_3 digit_char_0 replicate_small)
  next
    case 4
    then show ?thesis using assms
      by (simp add: zeroFill_def nat_text_4)
  qed
qed

lemma digits_val_2:
  "a < 10 \<Longrightarrow> b < 10 \<Longrightarrow> digits_val 0 [digit_char a, digit_char b] = 10 * a + b"
  by (simp add: digit_val_digit_char)

lemma digits_val_4:
  "a < 10 \<Longrightarrow> b < 10 \<Longrightarrow> c < 10 \<Longrightarrow> d < 10 \<Longrightarrow>
   digits_val 0 [digit_char a, digit_char b, digit_char c, digit_char d] =
     1000 * a + 100 * b + 10 * c + d"
  by (simp add: digit_val_digit_char)

section \<open>Lemmas: the calendar\<close>

lemma div_step:
  fixes y c :: int
  assumes "0 < c"
  shows "y div c - (y - 1) div c = (if y mod c = 0 then 1 else 0)"
proof (cases "y mod c = 0")
  case True
  have "y - 1 = c * (y div c - 1) + (c - 1)"
    using True mult_div_mod_eq [of c y] by (simp add: algebra_simps)
  then have "(y - 1) div c = y div c - 1"
    using assms by (intro int_div_pos_eq [where r = "c - 1"]) auto
  then show ?thesis using True by simp
next
  case False
  have "0 \<le> y mod c" "y mod c < c"
    using assms by simp_all
  then have r: "0 \<le> y mod c - 1" "y mod c - 1 < c"
    using False by linarith+
  have "y - 1 = c * (y div c) + (y mod c - 1)"
    using mult_div_mod_eq [of c y] by (simp add: algebra_simps)
  then have "(y - 1) div c = y div c"
    using r by (intro int_div_pos_eq [where r = "y mod c - 1"]) auto
  then show ?thesis using False by simp
qed

lemma mod_of_multiple:
  fixes y a b :: int
  assumes "y mod b = 0" "a dvd b"
  shows "y mod a = 0"
proof -
  have "b dvd y" using assms(1) by (simp add: dvd_eq_mod_eq_0)
  then have "a dvd y" using assms(2) by (rule dvd_trans [rotated])
  then show ?thesis by simp
qed

lemma DayFromYear_step:
  "DayFromYear (y + 1) = DayFromYear y + (if InLeapYear y then 366 else 365)"
proof -
  define p4 p100 p400 where "p4 = (y - 1) div 4" and "p100 = (y - 1) div 100"
    and "p400 = (y - 1) div 400"
  define q4 q100 q400 where "q4 = y div 4" and "q100 = y div 100" and "q400 = y div 400"
  have a: "(y + 1 - 1969) div 4 = q4 - 492" "(y - 1969) div 4 = p4 - 492"
          "(y + 1 - 1901) div 100 = q100 - 19" "(y - 1901) div 100 = p100 - 19"
          "(y + 1 - 1601) div 400 = q400 - 4" "(y - 1601) div 400 = p400 - 4"
    unfolding p4_def p100_def p400_def q4_def q100_def q400_def by linarith+
  have s4: "q4 - p4 = (if y mod 4 = 0 then 1 else 0)"
    unfolding p4_def q4_def using div_step [of 4 y] by simp
  have s100: "q100 - p100 = (if y mod 100 = 0 then 1 else 0)"
    unfolding p100_def q100_def using div_step [of 100 y] by simp
  have s400: "q400 - p400 = (if y mod 400 = 0 then 1 else 0)"
    unfolding p400_def q400_def using div_step [of 400 y] by simp
  have m: "y mod 400 = 0 \<Longrightarrow> y mod 100 = 0" "y mod 100 = 0 \<Longrightarrow> y mod 4 = 0"
    by (rule mod_of_multiple [of y 400 100], simp, simp)
       (rule mod_of_multiple [of y 100 4], simp, simp)
  have d1: "DayFromYear (y + 1) = 365 * y - 718685 + (q4 - 492) - (q100 - 19) + (q400 - 4)"
    unfolding DayFromYear_def a by simp
  have d0: "DayFromYear y = 365 * y - 719050 + (p4 - 492) - (p100 - 19) + (p400 - 4)"
    unfolding DayFromYear_def a by simp
  consider (c400) "y mod 400 = 0" | (c100) "y mod 400 \<noteq> 0" "y mod 100 = 0"
    | (c4) "y mod 100 \<noteq> 0" "y mod 4 = 0" | (c1) "y mod 4 \<noteq> 0"
    by blast
  then show ?thesis
  proof cases
    case c400
    then have "InLeapYear y" "q4 - p4 = 1" "q100 - p100 = 1" "q400 - p400 = 1"
      using m s4 s100 s400 by (simp_all add: InLeapYear_def)
    then show ?thesis using d0 d1 by simp
  next
    case c100
    then have "\<not> InLeapYear y" "q4 - p4 = 1" "q100 - p100 = 1" "q400 - p400 = 0"
      using m s4 s100 s400 by (simp_all add: InLeapYear_def)
    then show ?thesis using d0 d1 by simp
  next
    case c4
    then have "y mod 400 \<noteq> 0" using m by auto
    with c4 have "InLeapYear y" "q4 - p4 = 1" "q100 - p100 = 0" "q400 - p400 = 0"
      using s4 s100 s400 by (simp_all add: InLeapYear_def)
    then show ?thesis using d0 d1 by simp
  next
    case c1
    then have "y mod 100 \<noteq> 0" "y mod 400 \<noteq> 0" using m by auto
    with c1 have "\<not> InLeapYear y" "q4 - p4 = 0" "q100 - p100 = 0" "q400 - p400 = 0"
      using s4 s100 s400 by (simp_all add: InLeapYear_def)
    then show ?thesis using d0 d1 by simp
  qed
qed

lemma DayFromYear_alt:
  "DayFromYear y = 365 * y - 719050 + (y - 1969) div 4 - (y - 1901) div 100 + (y - 1601) div 400"
  by (simp add: DayFromYear_def)

lemma YearFromDay_bounds:
  "DayFromYear (YearFromDay n) \<le> n \<and> n < DayFromYear (YearFromDay n + 1)"
proof -
  define k where "k = (400 * n) div 146097"
  have k: "146097 * k \<le> 400 * n" "400 * n < 146097 * k + 146097"
    unfolding k_def by linarith+
  define a b c where "a = (1969 + k - 1969) div 4" and "b = (1969 + k - 1901) div 100"
    and "c = (1969 + k - 1601) div 400"
  have ab: "4 * a \<le> k" "k + 68 < 100 * b + 100" "400 * c \<le> k + 368"
    unfolding a_def b_def c_def by linarith+
  have "DayFromYear (1969 + k) = 365 * k - 365 + a - b + c"
    unfolding DayFromYear_alt a_def b_def c_def by simp
  then have lo: "DayFromYear (1969 + k) \<le> n"
    using k ab by linarith
  define a' b' c' where "a' = (1972 + k - 1969) div 4" and "b' = (1972 + k - 1901) div 100"
    and "c' = (1972 + k - 1601) div 400"
  have ab': "k + 3 < 4 * a' + 4" "100 * b' \<le> k + 71" "k + 371 < 400 * c' + 400"
    unfolding a'_def b'_def c'_def by linarith+
  have "DayFromYear (1972 + k) = 365 * k + 730 + a' - b' + c'"
    unfolding DayFromYear_alt a'_def b'_def c'_def by simp
  then have hi: "n < DayFromYear (1972 + k)"
    using k ab' by linarith
  have e: "1970 + k - 1 = 1969 + k" "1970 + k + 1 + 1 = 1972 + k" by simp_all
  show ?thesis
    using lo hi unfolding YearFromDay_def Let_def k_def [symmetric]
    by (simp add: e)
qed

lemma recompose_2: "10 * (n div 10) + n mod 10 = (n::nat)"
  by simp

lemma recompose_4:
  "1000 * (n div 1000) + 100 * (n div 100 mod 10) + 10 * (n div 10 mod 10) + n mod 10 = (n::nat)"
proof -
  have a: "n div 100 = 10 * (n div 1000) + n div 100 mod 10"
    using mult_div_mod_eq [of 10 "n div 100"] by (simp add: div_mult2_eq [symmetric])
  have b: "n div 10 = 10 * (n div 100) + n div 10 mod 10"
    using mult_div_mod_eq [of 10 "n div 10"] by (simp add: div_mult2_eq [symmetric])
  have c: "n = 10 * (n div 10) + n mod 10" by simp
  show ?thesis using a b c by linarith
qed

lemma hms_recompose:
  fixes q :: int
  shows "3600 * (q div 3600) + 60 * (q div 60 mod 60) + q mod 60 = q"
proof -
  have a: "q div 60 = 60 * (q div 3600) + q div 60 mod 60"
    using mult_div_mod_eq [of 60 "q div 60"] by (simp add: zdiv_zmult2_eq [symmetric])
  have b: "q = 60 * (q div 60) + q mod 60" by simp
  show ?thesis using a b by linarith
qed

lemma DayFromYear_less:
  assumes "a < b"
  shows "DayFromYear a < DayFromYear b"
  using assms
proof (induction b rule: int_gr_induct)
  case base
  show ?case using DayFromYear_step [of a] by (simp split: if_splits)
next
  case (step i)
  then show ?case using DayFromYear_step [of i] by (simp split: if_splits)
qed

lemma DayFromYear_mono: "a \<le> b \<Longrightarrow> DayFromYear a \<le> DayFromYear b"
  using DayFromYear_less [of a b] by (cases "a = b") auto

lemma YearFromDay_unique:
  assumes "DayFromYear y \<le> n" "n < DayFromYear (y + 1)"
  shows "YearFromDay n = y"
proof (rule ccontr)
  assume ne: "YearFromDay n \<noteq> y"
  have b: "DayFromYear (YearFromDay n) \<le> n" "n < DayFromYear (YearFromDay n + 1)"
    using YearFromDay_bounds [of n] by simp_all
  show False
  proof (cases "YearFromDay n < y")
    case True
    then have "DayFromYear (YearFromDay n + 1) \<le> DayFromYear y"
      by (intro DayFromYear_mono) simp
    then show False using assms b by linarith
  next
    case False
    then have "DayFromYear (y + 1) \<le> DayFromYear (YearFromDay n)"
      using ne by (intro DayFromYear_mono) simp
    then show False using assms b by linarith
  qed
qed

lemma DayFromYear_0: "DayFromYear 0 = - 719528"
  by (simp add: DayFromYear_def)

lemma DayFromYear_10000: "DayFromYear 10000 = 2932897"
  by (simp add: DayFromYear_def)

lemma YearFromDay_range:
  assumes "- 719528 \<le> n" "n < 2932897"
  shows "0 \<le> YearFromDay n" "YearFromDay n < 10000"
proof -
  have b: "DayFromYear (YearFromDay n) \<le> n" "n < DayFromYear (YearFromDay n + 1)"
    using YearFromDay_bounds [of n] by simp_all
  show "0 \<le> YearFromDay n"
  proof (rule ccontr)
    assume "\<not> 0 \<le> YearFromDay n"
    then have "DayFromYear (YearFromDay n + 1) \<le> DayFromYear 0"
      by (intro DayFromYear_mono) simp
    then show False using assms b by (simp add: DayFromYear_0)
  qed
  show "YearFromDay n < 10000"
  proof (rule ccontr)
    assume "\<not> YearFromDay n < 10000"
    then have "DayFromYear 10000 \<le> DayFromYear (YearFromDay n)"
      by (intro DayFromYear_mono) simp
    then show False using assms b by (simp add: DayFromYear_10000)
  qed
qed

lemma day_of_year_range:
  "0 \<le> n - DayFromYear (YearFromDay n)"
  "n - DayFromYear (YearFromDay n) < 365 + leap_day (InLeapYear (YearFromDay n))"
  using YearFromDay_bounds [of n] DayFromYear_step [of "YearFromDay n"]
  by (simp_all add: leap_day_def split: if_splits)

lemma month_of_day:
  assumes "0 \<le> d" "d < 365 + leap_day l"
  shows "1 \<le> MonthFromDay l d \<and> MonthFromDay l d \<le> 12
    \<and> 1 \<le> d - MonthStart l (MonthFromDay l d) + 1
    \<and> d - MonthStart l (MonthFromDay l d) + 1 \<le>
       (if MonthFromDay l d = 2 then 28 + leap_day l
        else if MonthFromDay l d = 4 \<or> MonthFromDay l d = 6 \<or> MonthFromDay l d = 9
                \<or> MonthFromDay l d = 11 then 30 else 31)"
proof -
  define L where "L = leap_day l"
  have L: "0 \<le> L" "L \<le> 1" by (simp_all add: L_def leap_day_def)
  have d: "0 \<le> d" "d < 365 + L" using assms by (simp_all add: L_def)
  consider (m1) "d < 31"
    | (m2) "31 \<le> d" "d < 59 + L"
    | (m3) "59 + L \<le> d" "d < 90 + L"
    | (m4) "90 + L \<le> d" "d < 120 + L"
    | (m5) "120 + L \<le> d" "d < 151 + L"
    | (m6) "151 + L \<le> d" "d < 181 + L"
    | (m7) "181 + L \<le> d" "d < 212 + L"
    | (m8) "212 + L \<le> d" "d < 243 + L"
    | (m9) "243 + L \<le> d" "d < 273 + L"
    | (m10) "273 + L \<le> d" "d < 304 + L"
    | (m11) "304 + L \<le> d" "d < 334 + L"
    | (m12) "334 + L \<le> d"
    by linarith
  then show ?thesis
  proof cases
    case m1
    then have M: "MonthFromDay l d = 1"
      using L d by (simp add: MonthFromDay_def Let_def L_def [symmetric])
    have S: "MonthStart l 1 = 0"
      by (simp add: MonthStart_def Let_def L_def [symmetric])
    show ?thesis
      unfolding M S L_def [symmetric] using m1 L d by simp
  next
    case m2
    then have M: "MonthFromDay l d = 2"
      using L d by (simp add: MonthFromDay_def Let_def L_def [symmetric])
    have S: "MonthStart l 2 = 31"
      by (simp add: MonthStart_def Let_def L_def [symmetric])
    show ?thesis
      unfolding M S L_def [symmetric] using m2 L d by simp
  next
    case m3
    then have M: "MonthFromDay l d = 3"
      using L d by (simp add: MonthFromDay_def Let_def L_def [symmetric])
    have S: "MonthStart l 3 = 59 + L"
      by (simp add: MonthStart_def Let_def L_def [symmetric])
    show ?thesis
      unfolding M S L_def [symmetric] using m3 L d by simp
  next
    case m4
    then have M: "MonthFromDay l d = 4"
      using L d by (simp add: MonthFromDay_def Let_def L_def [symmetric])
    have S: "MonthStart l 4 = 90 + L"
      by (simp add: MonthStart_def Let_def L_def [symmetric])
    show ?thesis
      unfolding M S L_def [symmetric] using m4 L d by simp
  next
    case m5
    then have M: "MonthFromDay l d = 5"
      using L d by (simp add: MonthFromDay_def Let_def L_def [symmetric])
    have S: "MonthStart l 5 = 120 + L"
      by (simp add: MonthStart_def Let_def L_def [symmetric])
    show ?thesis
      unfolding M S L_def [symmetric] using m5 L d by simp
  next
    case m6
    then have M: "MonthFromDay l d = 6"
      using L d by (simp add: MonthFromDay_def Let_def L_def [symmetric])
    have S: "MonthStart l 6 = 151 + L"
      by (simp add: MonthStart_def Let_def L_def [symmetric])
    show ?thesis
      unfolding M S L_def [symmetric] using m6 L d by simp
  next
    case m7
    then have M: "MonthFromDay l d = 7"
      using L d by (simp add: MonthFromDay_def Let_def L_def [symmetric])
    have S: "MonthStart l 7 = 181 + L"
      by (simp add: MonthStart_def Let_def L_def [symmetric])
    show ?thesis
      unfolding M S L_def [symmetric] using m7 L d by simp
  next
    case m8
    then have M: "MonthFromDay l d = 8"
      using L d by (simp add: MonthFromDay_def Let_def L_def [symmetric])
    have S: "MonthStart l 8 = 212 + L"
      by (simp add: MonthStart_def Let_def L_def [symmetric])
    show ?thesis
      unfolding M S L_def [symmetric] using m8 L d by simp
  next
    case m9
    then have M: "MonthFromDay l d = 9"
      using L d by (simp add: MonthFromDay_def Let_def L_def [symmetric])
    have S: "MonthStart l 9 = 243 + L"
      by (simp add: MonthStart_def Let_def L_def [symmetric])
    show ?thesis
      unfolding M S L_def [symmetric] using m9 L d by simp
  next
    case m10
    then have M: "MonthFromDay l d = 10"
      using L d by (simp add: MonthFromDay_def Let_def L_def [symmetric])
    have S: "MonthStart l 10 = 273 + L"
      by (simp add: MonthStart_def Let_def L_def [symmetric])
    show ?thesis
      unfolding M S L_def [symmetric] using m10 L d by simp
  next
    case m11
    then have M: "MonthFromDay l d = 11"
      using L d by (simp add: MonthFromDay_def Let_def L_def [symmetric])
    have S: "MonthStart l 11 = 304 + L"
      by (simp add: MonthStart_def Let_def L_def [symmetric])
    show ?thesis
      unfolding M S L_def [symmetric] using m11 L d by simp
  next
    case m12
    then have M: "MonthFromDay l d = 12"
      using L d by (simp add: MonthFromDay_def Let_def L_def [symmetric])
    have S: "MonthStart l 12 = 334 + L"
      by (simp add: MonthStart_def Let_def L_def [symmetric])
    show ?thesis
      unfolding M S L_def [symmetric] using m12 L d by simp
  qed
qed

lemma day_of_month:
  assumes "1 \<le> m" "m \<le> 12" "1 \<le> d"
    "d \<le> (if m = 2 then 28 + leap_day l else if m = 4 \<or> m = 6 \<or> m = 9 \<or> m = 11 then 30 else 31)"
  shows "MonthFromDay l (MonthStart l m + d - 1) = m \<and> 0 \<le> MonthStart l m + d - 1
    \<and> MonthStart l m + d - 1 < 365 + leap_day l"
proof -
  define L where "L = leap_day l"
  have L: "0 \<le> L" "L \<le> 1" by (simp_all add: L_def leap_day_def)
  consider (m1) "m = 1" | (m2) "m = 2" | (m3) "m = 3" | (m4) "m = 4" | (m5) "m = 5" | (m6) "m = 6" | (m7) "m = 7" | (m8) "m = 8" | (m9) "m = 9" | (m10) "m = 10" | (m11) "m = 11" | (m12) "m = 12"
  proof -
    have "m = 1 \<or> m = 2 \<or> m = 3 \<or> m = 4 \<or> m = 5 \<or> m = 6 \<or> m = 7 \<or> m = 8 \<or> m = 9
        \<or> m = 10 \<or> m = 11 \<or> m = 12"
      using assms(1,2) by presburger
    then show ?thesis using that by blast
  qed
  then show ?thesis
  proof cases
    case m1
    have S: "MonthStart l 1 = 0"
      by (simp add: MonthStart_def Let_def L_def [symmetric])
    have dd: "d \<le> 31"
      using assms(4) unfolding m1 L_def by simp
    show ?thesis
      unfolding m1 S using dd assms(3) L
      by (simp add: MonthFromDay_def Let_def L_def [symmetric])
  next
    case m2
    have S: "MonthStart l 2 = 31"
      by (simp add: MonthStart_def Let_def L_def [symmetric])
    have dd: "d \<le> 28 + L"
      using assms(4) unfolding m2 L_def by simp
    show ?thesis
      unfolding m2 S using dd assms(3) L
      by (simp add: MonthFromDay_def Let_def L_def [symmetric])
  next
    case m3
    have S: "MonthStart l 3 = 59 + L"
      by (simp add: MonthStart_def Let_def L_def [symmetric])
    have dd: "d \<le> 31"
      using assms(4) unfolding m3 L_def by simp
    show ?thesis
      unfolding m3 S using dd assms(3) L
      by (simp add: MonthFromDay_def Let_def L_def [symmetric])
  next
    case m4
    have S: "MonthStart l 4 = 90 + L"
      by (simp add: MonthStart_def Let_def L_def [symmetric])
    have dd: "d \<le> 30"
      using assms(4) unfolding m4 L_def by simp
    show ?thesis
      unfolding m4 S using dd assms(3) L
      by (simp add: MonthFromDay_def Let_def L_def [symmetric])
  next
    case m5
    have S: "MonthStart l 5 = 120 + L"
      by (simp add: MonthStart_def Let_def L_def [symmetric])
    have dd: "d \<le> 31"
      using assms(4) unfolding m5 L_def by simp
    show ?thesis
      unfolding m5 S using dd assms(3) L
      by (simp add: MonthFromDay_def Let_def L_def [symmetric])
  next
    case m6
    have S: "MonthStart l 6 = 151 + L"
      by (simp add: MonthStart_def Let_def L_def [symmetric])
    have dd: "d \<le> 30"
      using assms(4) unfolding m6 L_def by simp
    show ?thesis
      unfolding m6 S using dd assms(3) L
      by (simp add: MonthFromDay_def Let_def L_def [symmetric])
  next
    case m7
    have S: "MonthStart l 7 = 181 + L"
      by (simp add: MonthStart_def Let_def L_def [symmetric])
    have dd: "d \<le> 31"
      using assms(4) unfolding m7 L_def by simp
    show ?thesis
      unfolding m7 S using dd assms(3) L
      by (simp add: MonthFromDay_def Let_def L_def [symmetric])
  next
    case m8
    have S: "MonthStart l 8 = 212 + L"
      by (simp add: MonthStart_def Let_def L_def [symmetric])
    have dd: "d \<le> 31"
      using assms(4) unfolding m8 L_def by simp
    show ?thesis
      unfolding m8 S using dd assms(3) L
      by (simp add: MonthFromDay_def Let_def L_def [symmetric])
  next
    case m9
    have S: "MonthStart l 9 = 243 + L"
      by (simp add: MonthStart_def Let_def L_def [symmetric])
    have dd: "d \<le> 30"
      using assms(4) unfolding m9 L_def by simp
    show ?thesis
      unfolding m9 S using dd assms(3) L
      by (simp add: MonthFromDay_def Let_def L_def [symmetric])
  next
    case m10
    have S: "MonthStart l 10 = 273 + L"
      by (simp add: MonthStart_def Let_def L_def [symmetric])
    have dd: "d \<le> 31"
      using assms(4) unfolding m10 L_def by simp
    show ?thesis
      unfolding m10 S using dd assms(3) L
      by (simp add: MonthFromDay_def Let_def L_def [symmetric])
  next
    case m11
    have S: "MonthStart l 11 = 304 + L"
      by (simp add: MonthStart_def Let_def L_def [symmetric])
    have dd: "d \<le> 30"
      using assms(4) unfolding m11 L_def by simp
    show ?thesis
      unfolding m11 S using dd assms(3) L
      by (simp add: MonthFromDay_def Let_def L_def [symmetric])
  next
    case m12
    have S: "MonthStart l 12 = 334 + L"
      by (simp add: MonthStart_def Let_def L_def [symmetric])
    have dd: "d \<le> 31"
      using assms(4) unfolding m12 L_def by simp
    show ?thesis
      unfolding m12 S using dd assms(3) L
      by (simp add: MonthFromDay_def Let_def L_def [symmetric])
  qed
qed

lemma daysInMonth_alt:
  "daysInMonth y m =
     (if m = 2 then 28 + leap_day (InLeapYear y)
      else if m = 4 \<or> m = 6 \<or> m = 9 \<or> m = 11 then 30 else 31)"
  by (simp add: daysInMonth_def leap_day_def)

lemma civil_from_days_valid:
  assumes "civil_from_days n = (y, m, d)"
  shows "y = YearFromDay n" "1 \<le> m" "m \<le> 12" "1 \<le> d" "d \<le> daysInMonth y m"
    "days_from_civil y m d = n"
proof -
  define doy where "doy = n - DayFromYear (YearFromDay n)"
  have "civil_from_days n =
      (YearFromDay n, MonthFromDay (InLeapYear (YearFromDay n)) doy,
       doy - MonthStart (InLeapYear (YearFromDay n))
               (MonthFromDay (InLeapYear (YearFromDay n)) doy) + 1)"
    by (simp add: civil_from_days_def Let_def doy_def)
  then have all: "YearFromDay n = y" "MonthFromDay (InLeapYear (YearFromDay n)) doy = m"
      "doy - MonthStart (InLeapYear (YearFromDay n))
               (MonthFromDay (InLeapYear (YearFromDay n)) doy) + 1 = d"
    unfolding assms by simp_all
  note y = all(1)
  have m: "MonthFromDay (InLeapYear y) doy = m" using all(2) unfolding y .
  have d: "doy - MonthStart (InLeapYear y) m + 1 = d" using all(3) unfolding y m .
  have r: "0 \<le> doy" "doy < 365 + leap_day (InLeapYear y)"
    unfolding doy_def using day_of_year_range [of n] unfolding y by simp_all
  show "y = YearFromDay n" using y by simp
  show "1 \<le> m" "m \<le> 12" "1 \<le> d" "d \<le> daysInMonth y m"
    using month_of_day [OF r] unfolding daysInMonth_alt m d by simp_all
  show "days_from_civil y m d = n"
    using d by (simp add: days_from_civil_def doy_def y)
qed

lemma civil_from_days_from_civil:
  assumes "1 \<le> m" "m \<le> 12" "1 \<le> d" "d \<le> daysInMonth y m"
  shows "civil_from_days (days_from_civil y m d) = (y, m, d)"
proof -
  define l where "l = InLeapYear y"
  define doy where "doy = MonthStart l m + d - 1"
  have a4: "d \<le> (if m = 2 then 28 + leap_day l
      else if m = 4 \<or> m = 6 \<or> m = 9 \<or> m = 11 then 30 else 31)"
    using assms(4) unfolding daysInMonth_alt l_def .
  have dm: "MonthFromDay l doy = m" "0 \<le> doy" "doy < 365 + leap_day l"
    unfolding doy_def using day_of_month [OF assms(1,2,3) a4] by simp_all
  have n: "days_from_civil y m d = DayFromYear y + doy"
    by (simp add: days_from_civil_def doy_def l_def)
  have "DayFromYear (y + 1) = DayFromYear y + 365 + leap_day l"
    using DayFromYear_step [of y] by (simp add: leap_day_def l_def)
  then have "YearFromDay (DayFromYear y + doy) = y"
    using dm by (intro YearFromDay_unique) simp_all
  then show ?thesis
    unfolding n using dm(1)
    by (simp add: civil_from_days_def Let_def l_def [symmetric] doy_def)
qed

section \<open>Lemmas: reading and writing times and dates\<close>

lemma two_digits:
  assumes "0 \<le> n" "n < 100"
  shows "length (zeroFill n 2) = 2" "is_digit (zeroFill n 2 ! 0)" "is_digit (zeroFill n 2 ! 1)"
    "int (digits_val 0 (zeroFill n 2)) = n" "CHR ''|'' \<notin> set (zeroFill n 2)"
proof -
  have d: "nat n div 10 < 10" "nat n mod 10 < 10" using assms by auto
  show "length (zeroFill n 2) = 2" "is_digit (zeroFill n 2 ! 0)" "is_digit (zeroFill n 2 ! 1)"
    "CHR ''|'' \<notin> set (zeroFill n 2)"
    using d digit_char_not_sep [of "nat n div 10"] digit_char_not_sep [of "nat n mod 10"]
    by (auto simp add: zeroFill_2 assms is_digit_digit_char)
  show "int (digits_val 0 (zeroFill n 2)) = n"
    using assms d by (simp add: zeroFill_2 digits_val_2 del: digits_val.simps)
qed

lemma time_fields:
  fixes t :: int
  defines "q \<equiv> t mod 86400000 div 1000"
  shows "t mod 86400000 div 3600000 = q div 3600" "t mod 86400000 div 60000 mod 60 = q div 60 mod 60"
    "t mod 86400000 div 1000 mod 60 = q mod 60"
    "0 \<le> q div 3600" "q div 3600 < 24" "0 \<le> q div 60 mod 60" "q div 60 mod 60 < 60"
    "0 \<le> q mod 60" "q mod 60 < 60"
proof -
  have r: "0 \<le> t mod 86400000" "t mod 86400000 < 86400000" by simp_all
  then have q: "0 \<le> q" "q < 86400" unfolding q_def by linarith+
  show "t mod 86400000 div 3600000 = q div 3600" "t mod 86400000 div 60000 mod 60 = q div 60 mod 60"
    "t mod 86400000 div 1000 mod 60 = q mod 60"
    unfolding q_def
    using zdiv_zmult2_eq [of 3600 "t mod 86400000" 1000] zdiv_zmult2_eq [of 60 "t mod 86400000" 1000]
    by simp_all
  show "0 \<le> q div 3600" "q div 3600 < 24" using q by linarith+
  show "0 \<le> q div 60 mod 60" "q div 60 mod 60 < 60" "0 \<le> q mod 60" "q mod 60 < 60"
    by simp_all
qed

lemma format_time_parts:
  assumes "valueOf m = Some t"
  shows "format_time m =
     zeroFill ((t + utcOffset m) mod 86400000 div 1000 div 3600) 2 @ '':'' @
     zeroFill ((t + utcOffset m) mod 86400000 div 1000 div 60 mod 60) 2 @ '':'' @
     zeroFill ((t + utcOffset m) mod 86400000 div 1000 mod 60) 2"
proof -
  have "format_time m =
     zeroFill ((t + utcOffset m) mod 86400000 div 3600000) 2 @ '':'' @
     zeroFill ((t + utcOffset m) mod 86400000 div 60000 mod 60) 2 @ '':'' @
     zeroFill ((t + utcOffset m) mod 86400000 div 1000 mod 60) 2"
    unfolding format_time_def Let_def assms by simp
  then show ?thesis
    by (simp only: time_fields(1,2) [of "t + utcOffset m"])
qed

lemma parse_time_parts:
  assumes "0 \<le> a" "a < 24" "0 \<le> b" "b < 60" "0 \<le> c" "c < 60"
  shows "parse_time (zeroFill a 2 @ '':'' @ zeroFill b 2 @ '':'' @ zeroFill c 2) =
     Some (a * 3600000 + b * 60000 + c * 1000)"
proof -
  obtain a1 a2 where a: "zeroFill a 2 = [a1, a2]"
    using assms by (simp add: zeroFill_2)
  obtain b1 b2 where b: "zeroFill b 2 = [b1, b2]"
    using assms by (simp add: zeroFill_2)
  obtain c1 c2 where c: "zeroFill c 2 = [c1, c2]"
    using assms by (simp add: zeroFill_2)
  have da: "is_digit a1" "is_digit a2" "int (digits_val 0 [a1, a2]) = a"
    using two_digits(2,3,4) [of a] assms a by simp_all
  have db: "is_digit b1" "is_digit b2" "int (digits_val 0 [b1, b2]) = b"
    using two_digits(2,3,4) [of b] assms b by simp_all
  have dc: "is_digit c1" "is_digit c2" "int (digits_val 0 [c1, c2]) = c"
    using two_digits(2,3,4) [of c] assms c by simp_all
  have "timeFormat [a1, a2, CHR '':'', b1, b2, CHR '':'', c1, c2]"
    using da db dc by (simp add: timeFormat_def)
  then show ?thesis
    using da db dc assms unfolding a b c
    by (simp add: parse_time_def del: digits_val.simps)
qed

lemma parse_time_format_time:
  assumes "valueOf m = Some t"
  shows "parse_time (format_time m) = Some ((t + utcOffset m) mod 86400000 div 1000 * 1000)"
proof -
  define q where "q = (t + utcOffset m) mod 86400000 div 1000"
  define a b c where "a = q div 3600" and "b = q div 60 mod 60" and "c = q mod 60"
  have r: "0 \<le> a" "a < 24" "0 \<le> b" "b < 60" "0 \<le> c" "c < 60"
    unfolding a_def b_def c_def q_def by (rule time_fields(4-9))+
  have "format_time m = zeroFill a 2 @ '':'' @ zeroFill b 2 @ '':'' @ zeroFill c 2"
    unfolding a_def b_def c_def q_def by (rule format_time_parts [OF assms])
  then have p: "parse_time (format_time m) = Some (a * 3600000 + b * 60000 + c * 1000)"
    using parse_time_parts [OF r] by (simp only:)
  have "3600 * a + 60 * b + c = q"
    unfolding a_def b_def c_def by (rule hms_recompose)
  then have "a * 3600000 + b * 60000 + c * 1000 = q * 1000" by linarith
  then show ?thesis
    using p unfolding q_def by (simp only:)
qed

lemma four_digits:
  assumes "0 \<le> n" "n < 10000"
  shows "length (zeroFill n 4) = 4" "is_digit (zeroFill n 4 ! 0)" "is_digit (zeroFill n 4 ! 1)"
    "is_digit (zeroFill n 4 ! 2)" "is_digit (zeroFill n 4 ! 3)"
    "int (digits_val 0 (zeroFill n 4)) = n"
proof -
  have d: "nat n div 1000 < 10" "nat n div 100 mod 10 < 10" "nat n div 10 mod 10 < 10"
    "nat n mod 10 < 10" using assms by auto
  show "length (zeroFill n 4) = 4" "is_digit (zeroFill n 4 ! 0)" "is_digit (zeroFill n 4 ! 1)"
    "is_digit (zeroFill n 4 ! 2)" "is_digit (zeroFill n 4 ! 3)"
    using d by (simp_all add: zeroFill_4 assms is_digit_digit_char)
  have "digits_val 0 (zeroFill n 4) = nat n"
    using d recompose_4 [of "nat n"]
    by (simp add: zeroFill_4 assms digits_val_4 del: digits_val.simps)
  then show "int (digits_val 0 (zeroFill n 4)) = n"
    using assms by simp
qed

lemma parse_date_parts:
  assumes "0 \<le> y" "y < 10000" "1 \<le> m" "m \<le> 12" "1 \<le> d" "d \<le> daysInMonth y m"
  shows "dateFormat (zeroFill y 4 @ ''-'' @ zeroFill m 2 @ ''-'' @ zeroFill d 2)"
    "parse_date (zeroFill y 4 @ ''-'' @ zeroFill m 2 @ ''-'' @ zeroFill d 2) =
       Some (days_from_civil y m d * 86400000)"
proof -
  have d31: "d \<le> 31" using assms(6) by (simp add: daysInMonth_def split: if_splits)
  obtain y1 y2 y3 y4 where y: "zeroFill y 4 = [y1, y2, y3, y4]"
    using assms by (simp add: zeroFill_4)
  obtain m1 m2 where m: "zeroFill m 2 = [m1, m2]"
    using assms by (simp add: zeroFill_2)
  obtain d1 d2 where d: "zeroFill d 2 = [d1, d2]"
    using assms d31 by (simp add: zeroFill_2)
  have dy: "is_digit y1" "is_digit y2" "is_digit y3" "is_digit y4"
    "int (digits_val 0 [y1, y2, y3, y4]) = y"
    using four_digits(2-6) [of y] assms y by simp_all
  have dm: "is_digit m1" "is_digit m2" "int (digits_val 0 [m1, m2]) = m"
    using two_digits(2,3,4) [of m] assms m by simp_all
  have dd: "is_digit d1" "is_digit d2" "int (digits_val 0 [d1, d2]) = d"
    using two_digits(2,3,4) [of d] assms d31 d by simp_all
  show f: "dateFormat (zeroFill y 4 @ ''-'' @ zeroFill m 2 @ ''-'' @ zeroFill d 2)"
    unfolding y m d using dy dm dd by (simp add: dateFormat_def)
  show "parse_date (zeroFill y 4 @ ''-'' @ zeroFill m 2 @ ''-'' @ zeroFill d 2) =
       Some (days_from_civil y m d * 86400000)"
    using f dy dm dd assms unfolding y m d
    by (simp add: parse_date_def del: digits_val.simps)
qed

lemma day_key_parts:
  "civil_from_days n = (y, m, d) \<Longrightarrow>
   day_key n = zeroFill y 4 @ ''-'' @ zeroFill m 2 @ ''-'' @ zeroFill d 2"
  by (simp add: day_key_def format_date_def)

lemma parse_date_day_key:
  assumes "- 719528 \<le> n" "n < 2932897"
  shows "dateFormat (day_key n)" "parse_date (day_key n) = Some (n * 86400000)"
proof -
  obtain y m d where c: "civil_from_days n = (y, m, d)"
    by (cases "civil_from_days n") auto
  note v = civil_from_days_valid [OF c]
  have yr: "0 \<le> y" "y < 10000"
    using YearFromDay_range [OF assms] v(1) by simp_all
  show "dateFormat (day_key n)" "parse_date (day_key n) = Some (n * 86400000)"
    unfolding day_key_parts [OF c]
    using parse_date_parts [OF yr v(2-5)] v(6) by simp_all
qed

lemma digit_char_of_val: "digit_val c = Some k \<Longrightarrow> k < 10 \<and> digit_char k = c"
  by (auto simp: digit_val_def digit_char_def split: if_splits)

lemma is_digitE:
  assumes "is_digit c"
  obtains k where "k < 10" "c = digit_char k" "digit_val c = Some k"
  using assms digit_char_of_val [of c] by (auto simp: is_digit_def)

lemma mod_digit: "k < (10::nat) \<Longrightarrow> (10 * x + k) mod 10 = k"
  by simp

lemma zeroFill_digits_2:
  assumes "is_digit a" "is_digit b"
  shows "zeroFill (int (digits_val 0 [a, b])) 2 = [a, b]" "digits_val 0 [a, b] < 100"
proof -
  obtain ka where ka: "ka < 10" "a = digit_char ka" "digit_val a = Some ka"
    using assms(1) by (rule is_digitE)
  obtain kb where kb: "kb < 10" "b = digit_char kb" "digit_val b = Some kb"
    using assms(2) by (rule is_digitE)
  define v where "v = 10 * ka + kb"
  have v: "digits_val 0 [a, b] = v" using ka(3) kb(3) by (simp add: v_def)
  have lt: "v < 100" unfolding v_def using ka(1) kb(1) by simp
  show "digits_val 0 [a, b] < 100" unfolding v by (rule lt)
  have dv: "v div 10 = ka" "v mod 10 = kb" unfolding v_def using ka(1) kb(1) by simp_all
  have "zeroFill (int v) 2 = [digit_char (nat (int v) div 10), digit_char (nat (int v) mod 10)]"
    using lt by (intro zeroFill_2) simp_all
  then have "zeroFill (int v) 2 = [a, b]"
    by (simp add: dv ka(2) kb(2))
  then show "zeroFill (int (digits_val 0 [a, b])) 2 = [a, b]"
    using v by simp
qed

lemma zeroFill_digits_4:
  assumes "is_digit a" "is_digit b" "is_digit c" "is_digit d"
  shows "zeroFill (int (digits_val 0 [a, b, c, d])) 4 = [a, b, c, d]"
    "digits_val 0 [a, b, c, d] < 10000"
proof -
  obtain ka where ka: "ka < 10" "a = digit_char ka" "digit_val a = Some ka"
    using assms(1) by (rule is_digitE)
  obtain kb where kb: "kb < 10" "b = digit_char kb" "digit_val b = Some kb"
    using assms(2) by (rule is_digitE)
  obtain kc where kc: "kc < 10" "c = digit_char kc" "digit_val c = Some kc"
    using assms(3) by (rule is_digitE)
  obtain kd where kd: "kd < 10" "d = digit_char kd" "digit_val d = Some kd"
    using assms(4) by (rule is_digitE)
  define v where "v = 1000 * ka + 100 * kb + 10 * kc + kd"
  have v: "digits_val 0 [a, b, c, d] = v" using ka(3) kb(3) kc(3) kd(3) by (simp add: v_def)
  have lt: "v < 10000" unfolding v_def using ka(1) kb(1) kc(1) kd(1) by simp
  show "digits_val 0 [a, b, c, d] < 10000" unfolding v by (rule lt)
  have q: "v div 10 = 100 * ka + 10 * kb + kc" "v div 100 = 10 * ka + kb" "v div 1000 = ka"
    unfolding v_def using ka(1) kb(1) kc(1) kd(1) by linarith+
  have dv: "v div 1000 = ka" "v div 100 mod 10 = kb" "v div 10 mod 10 = kc" "v mod 10 = kd"
  proof -
    show "v div 1000 = ka" by (rule q(3))
    show "v div 100 mod 10 = kb" unfolding q using mod_digit [OF kb(1), of ka] by simp
    show "v div 10 mod 10 = kc" unfolding q
      using mod_digit [OF kc(1), of "10 * ka + kb"] by (simp add: algebra_simps)
    show "v mod 10 = kd" unfolding v_def
      using mod_digit [OF kd(1), of "100 * ka + 10 * kb + kc"] by (simp add: algebra_simps)
  qed
  have "zeroFill (int v) 4 = [digit_char (nat (int v) div 1000), digit_char (nat (int v) div 100 mod 10),
                         digit_char (nat (int v) div 10 mod 10), digit_char (nat (int v) mod 10)]"
    using lt by (intro zeroFill_4) simp_all
  then have "zeroFill (int v) 4 = [a, b, c, d]"
    by (simp add: dv ka(2) kb(2) kc(2) kd(2))
  then show "zeroFill (int (digits_val 0 [a, b, c, d])) 4 = [a, b, c, d]"
    using v by simp
qed

section \<open>Lemmas: resolving explicit dates\<close>

lemma length_10E:
  assumes "length s = 10"
  obtains c0 c1 c2 c3 c4 c5 c6 c7 c8 c9 where "s = [c0, c1, c2, c3, c4, c5, c6, c7, c8, c9]"
  using assms by (auto simp: eval_nat_numeral length_Suc_conv)

lemma day_key_parse_date:
  assumes "parse_date s = Some t"
  obtains n where "t = n * 86400000" "day_key n = s" "- 719528 \<le> n" "n < 2932897"
proof -
  have f: "dateFormat s" using assms by (simp add: parse_date_def split: if_splits)
  then have "length s = 10" by (simp add: dateFormat_def)
  then obtain c0 c1 c2 c3 c4 c5 c6 c7 c8 c9 where s: "s = [c0, c1, c2, c3, c4, c5, c6, c7, c8, c9]"
    by (rule length_10E)
  have dg: "is_digit c0" "is_digit c1" "is_digit c2" "is_digit c3" "c4 = CHR ''-''"
    "is_digit c5" "is_digit c6" "c7 = CHR ''-''" "is_digit c8" "is_digit c9"
    using f unfolding s by (simp_all add: dateFormat_def)
  define y where "y = int (digits_val 0 [c0, c1, c2, c3])"
  define m where "m = int (digits_val 0 [c5, c6])"
  define d where "d = int (digits_val 0 [c8, c9])"
  have td: "take 4 s = [c0, c1, c2, c3]" "take 2 (drop 5 s) = [c5, c6]" "drop 8 s = [c8, c9]"
    unfolding s by simp_all
  have p: "parse_date s =
      (if 1 \<le> m \<and> m \<le> 12 \<and> 1 \<le> d \<and> d \<le> daysInMonth y m
       then Some (days_from_civil y m d * 86400000) else None)"
    unfolding parse_date_def Let_def td y_def m_def d_def using f by (simp only: if_True)
  then have v: "1 \<le> m" "m \<le> 12" "1 \<le> d" "d \<le> daysInMonth y m"
    and t: "t = days_from_civil y m d * 86400000"
    using assms by (simp_all split: if_splits)
  have yr: "0 \<le> y" "y < 10000"
    using zeroFill_digits_4(2) [OF dg(1-4)] by (simp_all add: y_def)
  have c: "civil_from_days (days_from_civil y m d) = (y, m, d)"
    using v by (rule civil_from_days_from_civil)
  have z: "zeroFill y 4 = [c0, c1, c2, c3]" "zeroFill m 2 = [c5, c6]" "zeroFill d 2 = [c8, c9]"
    unfolding y_def m_def d_def
    by (rule zeroFill_digits_4(1) [OF dg(1-4)], rule zeroFill_digits_2(1) [OF dg(6,7)],
        rule zeroFill_digits_2(1) [OF dg(9,10)])
  have k: "day_key (days_from_civil y m d) = s"
    unfolding day_key_parts [OF c] z s using dg(5,8) by simp
  have yy: "YearFromDay (days_from_civil y m d) = y"
    using civil_from_days_valid(1) [OF c] by simp
  have b: "DayFromYear y \<le> days_from_civil y m d" "days_from_civil y m d < DayFromYear (y + 1)"
    using YearFromDay_bounds [of "days_from_civil y m d"] unfolding yy by simp_all
  have "DayFromYear 0 \<le> DayFromYear y" "DayFromYear (y + 1) \<le> DayFromYear 10000"
    using yr by (auto intro: DayFromYear_mono)
  then have r: "- 719528 \<le> days_from_civil y m d" "days_from_civil y m d < 2932897"
    using b by (simp_all add: DayFromYear_0 DayFromYear_10000)
  show thesis
    using that [OF t k r] .
qed

lemma find_Dates:
  "dateFormat s \<Longrightarrow> find (\<lambda>key. key_test key s) [Dates, Yesterday, Week, Month] = Some Dates"
  by (simp add: key_test_def)

lemma parse_iso_date: "dateFormat s \<Longrightarrow> parse_iso s = parse_date s"
  by (simp add: parse_iso_def dateFormat_def)

lemma format_date_add_days:
  "format_date (add_days \<lparr>valueOf = Some (n * 86400000), utcOffset = 0\<rparr> i) = day_key (n + i)"
  by (simp add: add_days_def day_key_def algebra_simps)

lemma by_days_utc:
  "map format_date
     (by_days (\<lparr>valueOf = Some (a * 86400000), utcOffset = 0\<rparr>,
               \<lparr>valueOf = Some (b * 86400000), utcOffset = 0\<rparr>)) =
   map (\<lambda>i. day_key (a + int i)) [0 ..< nat \<bar>a - b\<bar> + 1]"
proof -
  have "(a * 86400000 - b * 86400000) = (a - b) * 86400000" by (simp add: algebra_simps)
  then have "diff_days \<lparr>valueOf = Some (a * 86400000), utcOffset = 0\<rparr>
       \<lparr>valueOf = Some (b * 86400000), utcOffset = 0\<rparr> = Some (a - b)"
    by (simp add: diff_days_def diff_def)
  then show ?thesis
    by (simp add: by_days_def format_date_add_days o_def)
qed

lemma resolveDays_dates:
  assumes "parse_date first = Some (a * 86400000)" "parse_date second = Some (b * 86400000)"
  shows "resolveDays h (Some first) (Some second) =
     map (\<lambda>i. day_key (a + int i)) [0 ..< nat \<bar>a - b\<bar> + 1]"
proof -
  have f: "dateFormat first" "dateFormat second"
    using assms by (simp_all add: parse_date_def split: if_splits)
  have "resolveDays h (Some first) (Some second) =
     map format_date (by_days (moment_utc first, moment_utc second))"
    using f by (simp add: resolveDays_def str_def key_test_def dateResolvers_def Let_def)
  also have "\<dots> = map (\<lambda>i. day_key (a + int i)) [0 ..< nat \<bar>a - b\<bar> + 1]"
    unfolding moment_utc_def parse_iso_date [OF f(1)] parse_iso_date [OF f(2)] assms
    by (rule by_days_utc)
  finally show ?thesis .
qed

lemma resolveDays_single:
  assumes "parse_date first = Some (a * 86400000)" "\<not> dateFormat (str second)"
  shows "resolveDays h (Some first) second = [day_key a]"
proof -
  have f: "dateFormat first"
    using assms by (simp_all add: parse_date_def split: if_splits)
  have "resolveDays h (Some first) second =
     map format_date (by_days (moment_utc first, moment_utc first))"
    using f assms(2) by (simp add: resolveDays_def str_def key_test_def dateResolvers_def Let_def)
  also have "\<dots> = map (\<lambda>i. day_key (a + int i)) [0 ..< nat \<bar>a - a\<bar> + 1]"
    unfolding moment_utc_def parse_iso_date [OF f(1)] assms
    by (rule by_days_utc)
  finally show ?thesis by simp
qed

lemma map_upt_upto:
  "a \<le> b \<Longrightarrow> map (\<lambda>i. f (a + int i)) [0 ..< nat (b - a) + 1] = map f [a..b]"
proof (induction "nat (b - a)" arbitrary: b)
  case 0
  then have "b = a" by simp
  then show ?case by simp
next
  case (Suc k)
  then have k: "k = nat (b - 1 - a)" "a \<le> b - 1" by linarith+
  have "[a..b] = [a..b - 1] @ [b]"
    using Suc.prems upto_rec2 [of a b] by simp
  moreover have "nat (b - a) + 1 = Suc (nat (b - 1 - a) + 1)" using k Suc.hyps(2) by simp
  moreover have "a + int (nat (b - 1 - a) + 1) = b" using k by simp
  ultimately show ?case
    using Suc.hyps(1) [OF k] by simp
qed

section \<open>Lemmas: the line of a task\<close>

lemma format_time_no_sep: "CHR ''|'' \<notin> set (format_time m)"
proof (cases "valueOf m")
  case None
  then show ?thesis by (simp add: format_time_def)
next
  case (Some t)
  define q where "q = (t + utcOffset m) mod 86400000 div 1000"
  define a b c where "a = q div 3600" and "b = q div 60 mod 60" and "c = q mod 60"
  have r: "0 \<le> a" "a < 24" "0 \<le> b" "b < 60" "0 \<le> c" "c < 60"
    unfolding a_def b_def c_def q_def by (rule time_fields(4-9))+
  then have r': "a < 100" "b < 100" "c < 100" by linarith+
  have f: "format_time m = zeroFill a 2 @ '':'' @ zeroFill b 2 @ '':'' @ zeroFill c 2"
    unfolding a_def b_def c_def q_def by (rule format_time_parts [OF Some])
  show ?thesis
    unfolding f
    using two_digits(5) [OF r(1) r'(1)] two_digits(5) [OF r(3) r'(2)] two_digits(5) [OF r(5) r'(3)]
    by simp
qed

lemma element_text_no_sep: "CHR ''|'' \<notin> set (element_text v)"
  by (cases v) (simp_all add: element_text_def)

lemma split_task_line:
  assumes "CHR ''|'' \<notin> set projectArg" "CHR ''|'' \<notin> set taskArg"
  shows "split (task_line time projectArg taskArg id') ''|'' =
     [''task'', format_time (utc time), projectArg, taskArg, element_text id']"
  unfolding task_line_def
  using assms format_time_no_sep [of "utc time"] element_text_no_sep [of id']
  by (intro split_five_fields) simp_all


lemma parse_iso_day_time:
  assumes "dateFormat d" "timeFormat s"
  shows "parse_iso (d @ '' '' @ s) =
     (case parse_date d of None \<Rightarrow> None
      | Some x \<Rightarrow> (case parse_time s of None \<Rightarrow> None | Some y \<Rightarrow> Some (x + y)))"
proof -
  have l: "length d = 10" "length s = 8"
    using assms by (simp_all add: dateFormat_def timeFormat_def)
  have td: "take 10 (d @ '' '' @ s) = d" "drop 11 (d @ '' '' @ s) = s" "(d @ '' '' @ s) ! 10 = CHR '' ''"
    using l(1) by (simp_all add: drop_Cons' nth_append)
  have "length (d @ '' '' @ s) = 19" using l by simp
  then show ?thesis
    unfolding parse_iso_def td by simp
qed

lemma timeFormat_format_time:
  assumes "valueOf m = Some t"
  shows "timeFormat (format_time m)"
proof -
  define q where "q = (t + utcOffset m) mod 86400000 div 1000"
  define a b c where "a = q div 3600" and "b = q div 60 mod 60" and "c = q mod 60"
  have r: "0 \<le> a" "a < 24" "0 \<le> b" "b < 60" "0 \<le> c" "c < 60"
    unfolding a_def b_def c_def q_def by (rule time_fields(4-9))+
  have f: "format_time m = zeroFill a 2 @ '':'' @ zeroFill b 2 @ '':'' @ zeroFill c 2"
    unfolding a_def b_def c_def q_def by (rule format_time_parts [OF assms])
  obtain a1 a2 where a: "zeroFill a 2 = [a1, a2]"
    using r by (simp add: zeroFill_2)
  obtain b1 b2 where b: "zeroFill b 2 = [b1, b2]"
    using r by (simp add: zeroFill_2)
  obtain c1 c2 where c: "zeroFill c 2 = [c1, c2]"
    using r by (simp add: zeroFill_2)
  have "is_digit a1" "is_digit a2" "is_digit b1" "is_digit b2" "is_digit c1" "is_digit c2"
    using two_digits(2,3) [of a] two_digits(2,3) [of b] two_digits(2,3) [of c] r a b c
    by simp_all
  then show ?thesis
    unfolding f a b c by (simp add: timeFormat_def)
qed

lemma utc_valueOf: "valueOf (utc m) = valueOf m" "utcOffset (utc m) = 0"
  by (simp_all add: utc_def)

section \<open>Lemmas: the rows of show\<close>

lemma show_entries_at:
  "show_entries h day \<lparr>elements = pre @ entry # post, index = length pre\<rparr> logged =
     (case show_entry h day entry (case post of [] \<Rightarrow> None | n # _ \<Rightarrow> Some n) of
        Inl e \<Rightarrow> (Some e, logged)
      | Inr None \<Rightarrow>
          show_entries h day \<lparr>elements = pre @ entry # post, index = Suc (length pre)\<rparr> logged
      | Inr (Some row) \<Rightarrow>
          show_entries h day \<lparr>elements = pre @ entry # post, index = Suc (length pre)\<rparr>
            (logged @ [row]))"
proof -
  have "elem (pre @ entry # post) (Suc (length pre)) = (case post of [] \<Rightarrow> None | n # _ \<Rightarrow> Some n)"
    by (simp add: elem_def nth_append split: list.splits)
  then show ?thesis
    using show_entries_step [of "\<lparr>elements = pre @ entry # post, index = length pre\<rparr>" h day logged]
    by (simp split: sum.splits option.splits)
qed

lemma show_entries_last:
  "show_entries h day \<lparr>elements = pre @ [entry], index = Suc (length pre)\<rparr> logged = (None, logged)"
  by (rule show_entries_done) simp


lemma five_fields:
  assumes "split entry ''|'' = type # time # project # task # id' # rest"
  shows "entry \<noteq> []" "elem (split entry ''|'') 0 = Some type" "elem (split entry ''|'') 1 = Some time"
    "elem (split entry ''|'') 2 = Some project" "elem (split entry ''|'') 3 = Some task"
    "elem (split entry ''|'') 4 = Some id'"
proof -
  show "entry \<noteq> []" using assms by (auto simp: split_def)
  show "elem (split entry ''|'') 0 = Some type" "elem (split entry ''|'') 1 = Some time"
    "elem (split entry ''|'') 2 = Some project" "elem (split entry ''|'') 3 = Some task"
    "elem (split entry ''|'') 4 = Some id'"
    unfolding assms by (simp_all add: elem_def)
qed

lemma show_entry_task:
  assumes "split entry ''|'' = type # time # project # task # id' # rest" "type \<noteq> ''break''"
  shows "show_entry h day entry nextEntry =
     Inr (Some (Row ((if truthy nextEntry then [] else ''~'')
                      @ number_text (adjusted (diff (endTime h day nextEntry)
                                                    (moment_utc (day @ '' '' @ time)))) @ ''h'')
                    (Some project) (Some id') (Some task)))"
  using five_fields [OF assms(1)] assms(2)
  by (simp add: show_entry_def Let_def str_def)


lemma adjusted_int:
  "adjusted (Some ms) = Some (of_int (max ((ms + 900000) div 1800000) 1) / 2)"
proof -
  have "(of_int ms / 3600000 * 2 :: rat) + 1 / 2 = of_int (ms + 900000) / of_int 1800000"
    by simp
  then have "round (of_int ms / 3600000 * 2 :: rat) = (ms + 900000) div 1800000"
    unfolding round_def using floor_divide_of_int_eq [of "ms + 900000" 1800000, where ?'a = rat]
    by (simp only:)
  then show ?thesis
    by (simp add: adjusted_def max_def)
qed


lemma number_text_half:
  assumes "0 \<le> k"
  shows "number_text (Some (of_int k / 2)) = nat_text (nat (k div 2)) @ (if even k then [] else ''.5'')"
proof -
  have f: "\<lfloor>of_int k / 2 :: rat\<rfloor> = k div 2"
    using floor_divide_of_int_eq [of k 2, where ?'a = rat] by simp
  have "(of_int (k div 2) = (of_int k / 2 :: rat)) = (of_int (k div 2 * 2) = (of_int k :: rat))"
    by (simp add: field_simps)
  also have "\<dots> = (k div 2 * 2 = k)" by (simp only: of_int_eq_iff)
  also have "\<dots> = even k" by presburger
  finally show ?thesis
    by (simp add: number_text_def f)
qed

lemma label_text:
  "number_text (adjusted (Some ms)) =
     nat_text (nat (max ((ms + 900000) div 1800000) 1 div 2))
     @ (if even (max ((ms + 900000) div 1800000) 1) then [] else ''.5'')"
  unfolding adjusted_int by (rule number_text_half) simp


lemma show_entries_extends: "\<exists>rows. snd (show_entries h day entries logged) = logged @ rows"
proof (induction h day entries logged rule: show_entries.induct)
  case (1 h day entries logged)
  show ?case
  proof (cases "index entries < length (elements entries)")
    case False
    then show ?thesis by (simp add: show_entries_done)
  next
    case True
    define entries' where "entries' = entries\<lparr>index := index entries + 1\<rparr>"
    have n: "it_next entries = (Some (elements entries ! index entries), entries')"
      using True by (simp add: it_next_def entries'_def)
    show ?thesis
    proof (cases "show_entry h day (elements entries ! index entries) (peek entries')")
      case (Inl e)
      then show ?thesis
        by (subst show_entries.simps) (simp add: n)
    next
      case (Inr r)
      show ?thesis
      proof (cases r)
        case None
        then have "show_entries h day entries logged = show_entries h day entries' logged"
          using Inr by (subst show_entries.simps) (simp add: n)
        then show ?thesis
          using "1.IH"(1) [OF n [symmetric] refl] Inr None by simp
      next
        case (Some row)
        then have "show_entries h day entries logged = show_entries h day entries' (logged @ [row])"
          using Inr by (subst show_entries.simps) (simp add: n)
        moreover obtain rows where
          "snd (show_entries h day entries' (logged @ [row])) = (logged @ [row]) @ rows"
          using "1.IH"(2) [OF n [symmetric] refl] Inr Some by blast
        ultimately show ?thesis by simp
      qed
    qed
  qed
qed

lemma try_day_lines: "\<exists>rows. snd (try_day h st day) = Day day # rows"
proof (cases "readFile st (day @ ''.txt'')")
  case (Inl e)
  then show ?thesis by (simp add: try_day_def)
next
  case (Inr data)
  then show ?thesis
    using show_entries_extends [of h day "Iterator (split data (EOL h))" "[Day day]"]
    by (simp add: try_day_def)
qed

lemma show_days_append:
  "show_days h st verbose (xs @ ys) logged = show_days h st verbose ys (show_days h st verbose xs logged)"
  by (induction xs arbitrary: logged) (auto split: prod.splits option.splits)

lemma try_day_missing:
  "readFile st (day @ ''.txt'') = Inl e \<Longrightarrow> try_day h st day = (Some e, [Day day])"
  by (simp add: try_day_def)

lemma show_entries_rows:
  "\<exists>rows. snd (show_entries h day entries logged) = logged @ rows \<and> (\<forall>r \<in> set rows. is_row r)"
proof (induction h day entries logged rule: show_entries.induct)
  case (1 h day entries logged)
  show ?case
  proof (cases "index entries < length (elements entries)")
    case False
    then show ?thesis by (simp add: show_entries_done)
  next
    case True
    define entries' where "entries' = entries\<lparr>index := index entries + 1\<rparr>"
    have n: "it_next entries = (Some (elements entries ! index entries), entries')"
      using True by (simp add: it_next_def entries'_def)
    show ?thesis
    proof (cases "show_entry h day (elements entries ! index entries) (peek entries')")
      case (Inl e)
      then show ?thesis
        by (subst show_entries.simps) (simp add: n)
    next
      case (Inr r)
      show ?thesis
      proof (cases r)
        case None
        then have "show_entries h day entries logged = show_entries h day entries' logged"
          using Inr by (subst show_entries.simps) (simp add: n)
        then show ?thesis
          using "1.IH"(1) [OF n [symmetric] refl] Inr None by simp
      next
        case (Some row)
        then have s: "show_entries h day entries logged = show_entries h day entries' (logged @ [row])"
          using Inr by (subst show_entries.simps) (simp add: n)
        have w: "is_row row"
          using Inr Some
          by (auto simp: show_entry_def Let_def is_row_def split: if_splits)
        obtain rows where
          "snd (show_entries h day entries' (logged @ [row])) = (logged @ [row]) @ rows"
          "\<forall>r \<in> set rows. is_row r"
          using "1.IH"(2) [OF n [symmetric] refl] Inr Some by blast
        then have "snd (show_entries h day entries logged) = logged @ (row # rows)
            \<and> (\<forall>r \<in> set (row # rows). is_row r)"
          using s w by simp
        then show ?thesis by blast
      qed
    qed
  qed
qed

lemma try_day_rows:
  "\<exists>rows. snd (try_day h st day) = Day day # rows \<and> (\<forall>r \<in> set rows. is_row r)"
proof (cases "readFile st (day @ ''.txt'')")
  case (Inl e)
  then show ?thesis by (simp add: try_day_def)
next
  case (Inr data)
  then show ?thesis
    using show_entries_rows [of h day "Iterator (split data (EOL h))" "[Day day]"]
    by (simp add: try_day_def)
qed

lemma show_days_concat:
  "show_days h st verbose days logged = logged @ concat (map (day_output h st verbose) days)"
  by (induction days arbitrary: logged) (auto simp: day_output_def split: prod.splits option.splits)

lemma day_output_days:
  "filter is_day (day_output h st verbose day) = [Day day]"
proof -
  obtain rows where r: "snd (try_day h st day) = Day day # rows" "\<forall>r \<in> set rows. is_row r"
    using try_day_rows by blast
  have "filter is_day rows = []"
    using r(2) by (auto simp: filter_empty_conv is_row_def is_day_def split: out.splits)
  then show ?thesis
    using r(1)
    by (cases "try_day h st day") (auto simp: day_output_def is_day_def split: option.splits)
qed

lemma show_days_days:
  "filter is_day (show_days h st verbose days logged) = filter is_day logged @ map Day days"
  unfolding show_days_concat
  by (induction days) (simp_all add: day_output_days)

lemma endTime_no_next:
  "\<not> truthy nextEntry \<Longrightarrow> endTime h day nextEntry = \<lparr>valueOf = Some (now h), utcOffset = 0\<rparr>"
  by (cases nextEntry) (simp_all add: endTime_def truthy_def utc_def moment_now_def)

lemma endTime_next:
  "nextEntry \<noteq> [] \<Longrightarrow>
   endTime h day (Some nextEntry) = moment_utc (day @ '' '' @ str (elem (split nextEntry ''|'') 1))"
  by (simp add: endTime_def)

lemma show_entry_open:
  assumes "split entry ''|'' = type # time # project # task # id' # rest" "type \<noteq> ''break''"
    and "\<not> truthy nextEntry"
  shows "show_entry h day entry nextEntry =
      Inr (Some (Row (''~'' @ number_text (adjusted (diff \<lparr>valueOf = Some (now h), utcOffset = 0\<rparr>
                                                      (moment_utc (day @ '' '' @ time)))) @ ''h'')
                (Some project) (Some id') (Some task)))"
  using show_entry_task [OF assms(1,2), of h day nextEntry] assms(3)
    endTime_no_next [OF assms(3), of h day]
  by simp

lemma show_entries_after_last:
  "show_entries h day \<lparr>elements = pre @ [entry, []], index = Suc (length pre)\<rparr> logged = (None, logged)"
  using show_entries_at [of h day "pre @ [entry]" "[]" "[]" logged]
    show_entries_last [of h day "pre @ [entry]" "[]" logged]
  by (simp add: show_entry_def)

lemma show_entries_final:
  assumes "split entry ''|'' = type # time # project # task # id' # rest" "type \<noteq> ''break''"
  shows "show_entries h day \<lparr>elements = pre @ [entry], index = length pre\<rparr> logged =
        (None, logged @
           [Row (''~'' @ number_text (adjusted (diff \<lparr>valueOf = Some (now h), utcOffset = 0\<rparr>
                                                      (moment_utc (day @ '' '' @ time)))) @ ''h'')
                (Some project) (Some id') (Some task)])"
    and "show_entries h day \<lparr>elements = pre @ [entry, []], index = length pre\<rparr> logged =
        (None, logged @
           [Row (''~'' @ number_text (adjusted (diff \<lparr>valueOf = Some (now h), utcOffset = 0\<rparr>
                                                      (moment_utc (day @ '' '' @ time)))) @ ''h'')
                (Some project) (Some id') (Some task)])"
proof -
  show "show_entries h day \<lparr>elements = pre @ [entry], index = length pre\<rparr> logged =
        (None, logged @
           [Row (''~'' @ number_text (adjusted (diff \<lparr>valueOf = Some (now h), utcOffset = 0\<rparr>
                                                      (moment_utc (day @ '' '' @ time)))) @ ''h'')
                (Some project) (Some id') (Some task)])"
    using show_entry_open [OF assms, of None h day] show_entries_at [of h day pre entry "[]" logged]
    by (simp add: truthy_def show_entries_last)
  show "show_entries h day \<lparr>elements = pre @ [entry, []], index = length pre\<rparr> logged =
        (None, logged @
           [Row (''~'' @ number_text (adjusted (diff \<lparr>valueOf = Some (now h), utcOffset = 0\<rparr>
                                                      (moment_utc (day @ '' '' @ time)))) @ ''h'')
                (Some project) (Some id') (Some task)])"
    using show_entry_open [OF assms, of "Some []" h day]
      show_entries_at [of h day pre entry "[[]]" logged]
    by (simp add: truthy_def show_entries_after_last)
qed




lemma show_entry_variant_task:
  assumes "split entry ''|'' = type # time # project # task # id' # rest" "type \<noteq> ''break''"
  shows "show_entry_variant h day entry nextEntry =
        Inr (Some (Row (number_text (adjusted (diff (endTime_variant h day nextEntry)
                                                    (moment_local h (day @ '' '' @ time)))) @ ''h'')
                       (Some project) (Some id') (Some task)))"
  using five_fields [OF assms(1)] assms(2)
  by (simp add: show_entry_variant_def Let_def str_def)

lemma endTime_variant_no_next:
  assumes "parse_date day = Some d"
  shows "valueOf (endTime_variant h day None) = Some (min (now h) (d - localOffset h + 86399999))"
proof -
  obtain n where n: "d = n * 86400000"
    using assms by (rule day_key_parse_date)
  have "dateFormat day" using assms by (simp add: parse_date_def split: if_splits)
  then have "parse_iso day = Some d" using assms by (simp add: parse_iso_date)
  then show ?thesis
    unfolding n
    by (simp add: endTime_variant_def truthy_def moment_local_def endOf_day_def Let_def
        moment_now_def min_def)
qed


section \<open>Lemmas: the example\<close>

lemma example_split:
  "split ''task|09:00:00|A|a|'' ''|'' = [''task'', ''09:00:00'', ''A'', ''a'', '''']"
  "split ''task|09:30:00|B|b|true'' ''|'' = [''task'', ''09:30:00'', ''B'', ''b'', ''true'']"
  "split ''note|09:00:00|proj|lbl|7'' ''|'' = [''note'', ''09:00:00'', ''proj'', ''lbl'', ''7'']"
  "split ''break|09:30:00'' ''|'' = [''break'', ''09:30:00'']"
  "split ''task|10:00:00|B|b|'' ''|'' = [''task'', ''10:00:00'', ''B'', ''b'', '''']"
  "split ''task|09:46:00|B|b|'' ''|'' = [''task'', ''09:46:00'', ''B'', ''b'', '''']"
  "split ''task|09:00:00|A|a|\<newline>'' ''\<newline>'' = [''task|09:00:00|A|a|'', '''']"
  "split ''task|09:30:00|B|b|true\<newline>'' ''\<newline>'' = [''task|09:30:00|B|b|true'', '''']"
  by (simp_all add: split_def)

lemma example_times:
  "moment_utc ''2018-06-15 09:00:00'' = \<lparr>valueOf = Some 1529053200000, utcOffset = 0\<rparr>"
  "moment_utc ''2018-06-15 09:30:00'' = \<lparr>valueOf = Some 1529055000000, utcOffset = 0\<rparr>"
  "moment_utc ''2018-06-17 09:30:00'' = \<lparr>valueOf = Some 1529227800000, utcOffset = 0\<rparr>"
  "moment_utc ''2018-06-15 10:00:00'' = \<lparr>valueOf = Some 1529056800000, utcOffset = 0\<rparr>"
  "moment_utc ''2018-06-15 09:46:00'' = \<lparr>valueOf = Some 1529055960000, utcOffset = 0\<rparr>"
  "moment_utc ''2018-06-15 23:59:59'' = \<lparr>valueOf = Some 1529107199000, utcOffset = 0\<rparr>"
  by code_simp+

lemma example_labels:
  "number_text (adjusted (Some 176400000)) = ''49''"
  "number_text (adjusted (Some 1800000)) = ''0.5''"
  "number_text (adjusted (Some 174600000)) = ''48.5''"
  "number_text (adjusted (Some 2760000)) = ''1''"
  "number_text (adjusted (Some 1020000)) = ''0.5''"
  "number_text (adjusted (Some 53999000)) = ''15''"
  by (simp_all add: label_text nat_text_1 nat_text_2 digit_char_def)

lemma example_day_15:
  "show_entries example_host ''2018-06-15'' (Iterator [''task|09:00:00|A|a|'', '''']) logged =
     (None, logged @ [Row ''~49h'' (Some ''A'') (Some []) (Some ''a'')])"
  using show_entries_final(2) [of "''task|09:00:00|A|a|''" "''task''" "''09:00:00''" "''A''" "''a''"
      "[]" "[]" example_host "''2018-06-15''" "[]" logged]
  by (simp add: example_split example_times diff_def example_host_def example_labels Iterator_def)


lemma example_day_17:
  "show_entries example_host ''2018-06-17'' (Iterator [''task|09:30:00|B|b|true'', '''']) logged =
     (None, logged @ [Row ''~0.5h'' (Some ''B'') (Some ''true'') (Some ''b'')])"
  using show_entries_final(2) [of "''task|09:30:00|B|b|true''" "''task''" "''09:30:00''" "''B''" "''b''"
      "''true''" "[]" example_host "''2018-06-17''" "[]" logged]
  by (simp add: example_split example_times diff_def example_host_def example_labels Iterator_def)

lemma example_files:
  "readFile example_store ''2018-06-15.txt'' = Inr ''task|09:00:00|A|a|\<newline>''"
  "readFile example_store ''2018-06-16.txt'' = Inl ENOENT"
  "readFile example_store ''2018-06-17.txt'' = Inr ''task|09:30:00|B|b|true\<newline>''"
  by (simp_all add: readFile_def example_store_def)

lemma example_try_day:
  "try_day example_host example_store ''2018-06-15'' =
     (None, [Day ''2018-06-15'', Row ''~49h'' (Some ''A'') (Some []) (Some ''a'')])"
  "try_day example_host example_store ''2018-06-16'' = (Some ENOENT, [Day ''2018-06-16''])"
  "try_day example_host example_store ''2018-06-17'' =
     (None, [Day ''2018-06-17'', Row ''~0.5h'' (Some ''B'') (Some ''true'') (Some ''b'')])"
proof -
  have e: "EOL example_host = ''\<newline>''" by (simp add: example_host_def)
  show "try_day example_host example_store ''2018-06-15'' =
     (None, [Day ''2018-06-15'', Row ''~49h'' (Some ''A'') (Some []) (Some ''a'')])"
    using example_day_15 [of "[Day ''2018-06-15'']"]
    by (simp add: try_day_def example_files e example_split)
  show "try_day example_host example_store ''2018-06-16'' = (Some ENOENT, [Day ''2018-06-16''])"
    by (simp add: try_day_def example_files)
  show "try_day example_host example_store ''2018-06-17'' =
     (None, [Day ''2018-06-17'', Row ''~0.5h'' (Some ''B'') (Some ''true'') (Some ''b'')])"
    using example_day_17 [of "[Day ''2018-06-17'']"]
    by (simp add: try_day_def example_files e example_split)
qed

lemma example_days:
  "resolveDays example_host (Some ''2018-06-15'') (Some ''2018-06-17'') =
     [''2018-06-15'', ''2018-06-16'', ''2018-06-17'']"
  by code_simp


section \<open>Lemmas: the command line\<close>


















section \<open>Resolving explicit dates (claims C4 and C5)\<close>

lemma resolveDays_no_date:
  assumes "dateFormat first" "parse_date first = None"
  shows "resolveDays h (Some first) other = []"
proof -
  have "valueOf (moment_utc first) = None"
    using assms by (simp add: moment_utc_def parse_iso_date)
  then show ?thesis
    using assms(1)
    by (simp add: resolveDays_def str_def key_test_def dateResolvers_def Let_def by_days_def
        diff_days_def diff_def)
qed

lemma resolveDays_no_end_date:
  assumes "dateFormat first" "dateFormat second" "parse_date second = None"
  shows "resolveDays h (Some first) (Some second) = []"
proof -
  have "valueOf (moment_utc second) = None"
    using assms by (simp add: moment_utc_def parse_iso_date)
  then show ?thesis
    using assms(1,2)
    by (simp add: resolveDays_def str_def key_test_def dateResolvers_def Let_def by_days_def
        diff_days_def diff_def split: option.splits)
qed


lemma parse_date_range:
  assumes "parse_date s = Some (a * 86400000)"
  shows "- 719528 \<le> a" "a < 2932897" "day_key a = s" "dateFormat s"
proof -
  obtain n where n: "a * 86400000 = n * 86400000" "day_key n = s" "- 719528 \<le> n" "n < 2932897"
    using assms by (rule day_key_parse_date)
  then have "a = n" by simp
  then show "- 719528 \<le> a" "a < 2932897" "day_key a = s" using n by simp_all
  show "dateFormat s" using assms by (simp add: parse_date_def split: if_splits)
qed

text \<open>
  C4, as amended. For two tokens that are calendar dates of the shape \<^verbatim>\<open>YYYY-MM-DD\<close>, the
  first not after the second, \<^verbatim>\<open>resolveDays\<close> returns the keys of the days from the first to
  the second: one key for each day number, in ascending order, beginning with the first
  token and ending with the second, each of the shape of the pattern. When the second
  argument does not match the pattern (\<^verbatim>\<open>undefined\<close> included) it returns the first token
  alone. A token that matches the pattern and is no calendar date (\<open>bad\<close>) makes the result
  empty, as the first argument and as the second. \<open>a\<close> and \<open>b\<close> are the day numbers of
  the two dates.
\<close>

theorem resolve_explicit_dates:
  assumes "parse_date first = Some (a * 86400000)" "parse_date second = Some (b * 86400000)"
    and "a \<le> b"
  shows "resolveDays h (Some first) (Some second) = map day_key [a..b]
    \<and> day_key a = first \<and> day_key b = second
    \<and> (\<forall>k \<in> set (resolveDays h (Some first) (Some second)). dateFormat k)
    \<and> (\<forall>other. \<not> dateFormat (str other) \<longrightarrow> resolveDays h (Some first) other = [first])
    \<and> (\<forall>bad other. dateFormat bad \<and> parse_date bad = None \<longrightarrow>
          resolveDays h (Some bad) other = [] \<and> resolveDays h (Some first) (Some bad) = [])
    \<and> resolveDays h (Some ''2018-06-15'') (Some ''2018-06-17'') =
          [''2018-06-15'', ''2018-06-16'', ''2018-06-17'']
    \<and> resolveDays h (Some ''2018-06-15'') None = [''2018-06-15'']"
proof -
  have r: "resolveDays h (Some first) (Some second) = map day_key [a..b]"
    using resolveDays_dates [OF assms(1,2), of h] map_upt_upto [OF assms(3), of day_key]
    using assms(3) by simp
  have k: "day_key a = first" "day_key b = second"
    using parse_date_range(3) [OF assms(1)] parse_date_range(3) [OF assms(2)] by simp_all
  have "dateFormat (day_key n)" if "n \<in> set [a..b]" for n
  proof -
    have "- 719528 \<le> n" "n < 2932897"
      using that parse_date_range(1) [OF assms(1)] parse_date_range(2) [OF assms(2)] by simp_all
    then show ?thesis by (rule parse_date_day_key(1))
  qed
  then have f: "\<forall>k \<in> set (resolveDays h (Some first) (Some second)). dateFormat k"
    unfolding r by auto
  have s: "\<forall>other. \<not> dateFormat (str other) \<longrightarrow> resolveDays h (Some first) other = [first]"
    using resolveDays_single [OF assms(1), of _ h] k(1) by simp
  have p: "parse_date ''2018-06-15'' = Some (17697 * 86400000)"
    "parse_date ''2018-06-17'' = Some (17699 * 86400000)"
    by code_simp+
  have u: "\<not> dateFormat (str None)"
    by (simp add: str_def dateFormat_def)
  have e1: "resolveDays h (Some ''2018-06-15'') (Some ''2018-06-17'') =
      [''2018-06-15'', ''2018-06-16'', ''2018-06-17'']"
  proof -
    have "map day_key [17697, 17698, 17699] = [''2018-06-15'', ''2018-06-16'', ''2018-06-17'']"
      by code_simp
    moreover have "[0 ..< nat \<bar>17697 - 17699 :: int\<bar> + 1] = [0, 1, 2]"
      by (simp add: upt_rec)
    ultimately show ?thesis
      unfolding resolveDays_dates [OF p, of h] by simp
  qed
  have e2: "resolveDays h (Some ''2018-06-15'') None = [''2018-06-15'']"
    using resolveDays_single [OF p(1) u, of h] parse_date_range(3) [OF p(1)] by simp
  have n: "\<forall>bad other. dateFormat bad \<and> parse_date bad = None \<longrightarrow>
          resolveDays h (Some bad) other = [] \<and> resolveDays h (Some first) (Some bad) = []"
    using resolveDays_no_date [of _ h] resolveDays_no_end_date [OF parse_date_range(4) [OF assms(1)], of _ h]
    by blast
  show ?thesis using r k f s n e1 e2 by blast
qed

theorem resolve_explicit_dates_witness:
  "\<forall>h. resolveDays h (Some ''2020-02-28'') (Some ''2020-03-01'') =
         [''2020-02-28'', ''2020-02-29'', ''2020-03-01'']
       \<and> resolveDays h (Some ''2020-02-28'') (Some ''yesterday'') = [''2020-02-28'']
       \<and> resolveDays h (Some ''2020-02-30'') None = []
       \<and> resolveDays h (Some ''2020-02-28'') (Some ''2020-02-30'') = []"
proof
  fix h
  have p: "parse_date ''2020-02-28'' = Some (18320 * 86400000)"
    "parse_date ''2020-03-01'' = Some (18322 * 86400000)" "(18320::int) \<le> 18322"
    by code_simp+
  have u: "\<not> dateFormat (str (Some ''yesterday''))"
    by (simp add: str_def dateFormat_def)
  have b: "dateFormat ''2020-02-30'' \<and> parse_date ''2020-02-30'' = None"
    by code_simp
  have m: "map day_key [18320..18322] = [''2020-02-28'', ''2020-02-29'', ''2020-03-01'']"
    by code_simp
  note w = resolve_explicit_dates [OF p, of h]
  have 1: "resolveDays h (Some ''2020-02-28'') (Some ''2020-03-01'') =
         [''2020-02-28'', ''2020-02-29'', ''2020-03-01'']
       \<and> resolveDays h (Some ''2020-02-28'') (Some ''yesterday'') = [''2020-02-28'']"
    using w u m by simp
  have "\<forall>bad other. dateFormat bad \<and> parse_date bad = None \<longrightarrow>
          resolveDays h (Some bad) other = [] \<and> resolveDays h (Some ''2020-02-28'') (Some bad) = []"
    using w by (elim conjE)
  then have 2: "resolveDays h (Some ''2020-02-30'') None = []
       \<and> resolveDays h (Some ''2020-02-28'') (Some ''2020-02-30'') = []"
    using b by (elim allE [of _ "''2020-02-30''"] allE [of _ None]) (erule mp)
  show "resolveDays h (Some ''2020-02-28'') (Some ''2020-03-01'') =
         [''2020-02-28'', ''2020-02-29'', ''2020-03-01'']
       \<and> resolveDays h (Some ''2020-02-28'') (Some ''yesterday'') = [''2020-02-28'']
       \<and> resolveDays h (Some ''2020-02-30'') None = []
       \<and> resolveDays h (Some ''2020-02-28'') (Some ''2020-02-30'') = []"
    using 1 2 by simp
qed

theorem resolve_explicit_dates_counterexample:
  "\<forall>h. dateFormat ''2018-02-30''
       \<and> resolveDays h (Some ''2018-02-30'') None = []
       \<and> resolveDays h (Some ''2018-02-30'') None \<noteq> [''2018-02-30'']
       \<and> dateFormat ''2018-06-15'' \<and> dateFormat ''2018-06-31''
       \<and> resolveDays h (Some ''2018-06-15'') (Some ''2018-06-31'') = []"
proof
  fix h
  have d: "dateFormat ''2018-02-30''" "dateFormat ''2018-06-15''" "dateFormat ''2018-06-31''"
    by code_simp+
  have 1: "resolveDays h (Some ''2018-02-30'') None = []"
    by code_simp
  have 2: "resolveDays h (Some ''2018-06-15'') (Some ''2018-06-31'') = []"
    by code_simp
  show "dateFormat ''2018-02-30''
       \<and> resolveDays h (Some ''2018-02-30'') None = []
       \<and> resolveDays h (Some ''2018-02-30'') None \<noteq> [''2018-02-30'']
       \<and> dateFormat ''2018-06-15'' \<and> dateFormat ''2018-06-31''
       \<and> resolveDays h (Some ''2018-06-15'') (Some ''2018-06-31'') = []"
    using d 1 2 by simp
qed

text \<open>
  C5, as amended. When the second date is earlier than the first, \<^verbatim>\<open>resolveDays\<close> returns
  the first day followed by the days after it, as many as the two dates are apart: the
  range iterator of moment-range counts \<^verbatim>\<open>Math.abs(start.diff(end, 'days'))\<close> steps forward
  from the start. The result begins with the first token, is never empty and has one key
  more than the dates are days apart; it is not the first day alone.
\<close>

theorem resolve_inverted_dates:
  assumes "parse_date first = Some (a * 86400000)" "parse_date second = Some (b * 86400000)"
    and "b < a"
  shows "resolveDays h (Some first) (Some second) = map day_key [a .. a + (a - b)]
    \<and> hd (resolveDays h (Some first) (Some second)) = first
    \<and> length (resolveDays h (Some first) (Some second)) = nat (a - b) + 1"
proof -
  have le: "a \<le> a + (a - b)" using assms(3) by simp
  have "nat \<bar>a - b\<bar> = nat (a + (a - b) - a)" using assms(3) by simp
  then have r: "resolveDays h (Some first) (Some second) = map day_key [a .. a + (a - b)]"
    using resolveDays_dates [OF assms(1,2), of h] map_upt_upto [OF le, of day_key] by simp
  have "[a .. a + (a - b)] = a # [a + 1 .. a + (a - b)]"
    using le by (simp add: upto_rec1)
  then have "hd (map day_key [a .. a + (a - b)]) = first"
    using parse_date_range(3) [OF assms(1)] by simp
  then show ?thesis using r assms(3) by simp
qed

theorem resolve_inverted_dates_witness:
  "\<forall>h. resolveDays h (Some ''2018-03-02'') (Some ''2018-02-27'') =
         [''2018-03-02'', ''2018-03-03'', ''2018-03-04'', ''2018-03-05'']"
proof
  fix h
  have p: "parse_date ''2018-03-02'' = Some (17592 * 86400000)"
    "parse_date ''2018-02-27'' = Some (17589 * 86400000)" "(17589::int) < 17592"
    by code_simp+
  have m: "map day_key [17592 .. 17592 + (17592 - 17589)] =
      [''2018-03-02'', ''2018-03-03'', ''2018-03-04'', ''2018-03-05'']"
    by code_simp
  show "resolveDays h (Some ''2018-03-02'') (Some ''2018-02-27'') =
         [''2018-03-02'', ''2018-03-03'', ''2018-03-04'', ''2018-03-05'']"
    using resolve_inverted_dates [OF p, of h] m by simp
qed

theorem resolve_inverted_dates_counterexample:
  "\<forall>h. resolveDays h (Some ''2018-06-17'') (Some ''2018-06-15'') =
         [''2018-06-17'', ''2018-06-18'', ''2018-06-19'']
       \<and> resolveDays h (Some ''2018-06-17'') (Some ''2018-06-15'') \<noteq> [''2018-06-17'']"
proof
  fix h
  have "resolveDays h (Some ''2018-06-17'') (Some ''2018-06-15'') =
         [''2018-06-17'', ''2018-06-18'', ''2018-06-19'']"
    by code_simp
  then show "resolveDays h (Some ''2018-06-17'') (Some ''2018-06-15'') =
         [''2018-06-17'', ''2018-06-18'', ''2018-06-19'']
       \<and> resolveDays h (Some ''2018-06-17'') (Some ''2018-06-15'') \<noteq> [''2018-06-17'']"
    by simp
qed

section \<open>The line of a task (claims C8 and C10)\<close>

text \<open>
  C8. The id of a task entry is \<^verbatim>\<open>cmd.id\<close>: \<^verbatim>\<open>true\<close> when \<^verbatim>\<open>--id\<close> is given and \<^verbatim>\<open>undefined\<close>
  otherwise. A task line whose project and task hold no separator splits into the five
  fields it was joined from: the kind \<^verbatim>\<open>task\<close>, the time, the project, the task, and
  \<^verbatim>\<open>true\<close> for the id \<^verbatim>\<open>true\<close> or the empty string for no id, so that the fifth field is
  \<^verbatim>\<open>true\<close> exactly when the entry has the id. The time field reads back as the time of day
  of the moment, to the second; read after a day key, as \<^verbatim>\<open>show\<close> reads it, it is that time
  on that day; and the row \<^verbatim>\<open>show\<close> logs for the line carries the same project, id text and
  task.
\<close>

theorem task_line_round_trip:
  assumes "CHR ''|'' \<notin> set projectArg" "CHR ''|'' \<notin> set taskArg" "valueOf time = Some t"
  shows "split (task_line time projectArg taskArg (cmd_id given)) ''|'' =
       [''task'', format_time (utc time), projectArg, taskArg, if given then ''true'' else []]
    \<and> (elem (split (task_line time projectArg taskArg (cmd_id given)) ''|'') 4 = Some ''true'') = given
    \<and> parse_time (format_time (utc time)) = Some (t mod 86400000 div 1000 * 1000)
    \<and> (- 719528 \<le> n \<and> n < 2932897 \<longrightarrow>
         valueOf (moment_utc (day_key n @ '' '' @ format_time (utc time))) =
           Some (n * 86400000 + t mod 86400000 div 1000 * 1000))
    \<and> (\<exists>label. show_entry h day (task_line time projectArg taskArg (cmd_id given)) nextEntry =
           Inr (Some (Row label (Some projectArg) (Some (if given then ''true'' else []))
                        (Some taskArg))))"
proof -
  have v: "valueOf (utc time) = Some t" using assms(3) by (simp add: utc_valueOf)
  have i: "element_text (cmd_id given) = (if given then ''true'' else [])"
    by (simp add: element_text_def cmd_id_def)
  have s: "split (task_line time projectArg taskArg (cmd_id given)) ''|'' =
       [''task'', format_time (utc time), projectArg, taskArg, if given then ''true'' else []]"
    using split_task_line [OF assms(1,2), of time "cmd_id given"] unfolding i .
  have g: "(elem (split (task_line time projectArg taskArg (cmd_id given)) ''|'') 4 = Some ''true'') = given"
    unfolding s by (simp add: elem_def)
  have p: "parse_time (format_time (utc time)) = Some (t mod 86400000 div 1000 * 1000)"
    using parse_time_format_time [OF v] by (simp add: utc_valueOf)
  have d: "valueOf (moment_utc (day_key n @ '' '' @ format_time (utc time))) =
           Some (n * 86400000 + t mod 86400000 div 1000 * 1000)"
    if "- 719528 \<le> n \<and> n < 2932897"
  proof -
    have "dateFormat (day_key n)" "parse_date (day_key n) = Some (n * 86400000)"
      using that parse_date_day_key [of n] by simp_all
    then show ?thesis
      using parse_iso_day_time [OF _ timeFormat_format_time [OF v], of "day_key n"] p
      by (simp add: moment_utc_def)
  qed
  have ne: "task_line time projectArg taskArg (cmd_id given) \<noteq> []"
    by (simp add: task_line_def)
  have r: "\<exists>label. show_entry h day (task_line time projectArg taskArg (cmd_id given)) nextEntry =
           Inr (Some (Row label (Some projectArg) (Some (if given then ''true'' else []))
                        (Some taskArg)))"
    using ne by (simp add: show_entry_def s elem_def Let_def)
  show ?thesis using s g p d r by blast
qed

theorem task_line_round_trip_witness:
  "split (task_line \<lparr>valueOf = Some 1529053200123, utcOffset = 7200000\<rparr> ''A'' ''write spec''
            (cmd_id True)) ''|''
     = [''task'', ''09:00:00'', ''A'', ''write spec'', ''true'']
   \<and> split (task_line \<lparr>valueOf = Some 1529053200123, utcOffset = 7200000\<rparr> ''A'' ''write spec''
            (cmd_id False)) ''|''
     = [''task'', ''09:00:00'', ''A'', ''write spec'', '''']
   \<and> parse_time ''09:00:00'' = Some 32400000
   \<and> valueOf (moment_utc ''2018-06-15 09:00:00'') = Some 1529053200000"
proof -
  have f: "format_time (utc \<lparr>valueOf = Some 1529053200123, utcOffset = 7200000\<rparr>) = ''09:00:00''"
    by code_simp
  have k: "day_key 17697 = ''2018-06-15''"
    by code_simp
  have a: "CHR ''|'' \<notin> set ''A''" "CHR ''|'' \<notin> set ''write spec''"
    "valueOf \<lparr>valueOf = Some 1529053200123, utcOffset = 7200000\<rparr> = Some 1529053200123"
    by simp_all
  show ?thesis
    using task_line_round_trip [OF a, of True 17697] task_line_round_trip [OF a, of False 17697]
      f k
    by simp
qed




section \<open>Properties of the Iterator\<close>

lemma for_of_result:
  "for_of it = (drop (index it) (elements it), it\<lparr>index := 0\<rparr>)"
proof (induction it rule: for_of.induct)
  case (1 it)
  show ?case
  proof (cases "index it < length (elements it)")
    case True
    have "for_of it = (case for_of (it\<lparr>index := index it + 1\<rparr>) of
                         (vs, it'') \<Rightarrow> (elements it ! index it # vs, it''))"
      using True by (subst for_of.simps) (simp add: it_next_def)
    moreover have "for_of (it\<lparr>index := index it + 1\<rparr>) =
        (drop (index it + 1) (elements it), it\<lparr>index := 0\<rparr>)"
      using "1.IH" [of "Some (elements it ! index it)" "it\<lparr>index := index it + 1\<rparr>"
                       "elements it ! index it"] True
      by (simp add: it_next_def)
    ultimately show ?thesis
      using True by (simp add: Cons_nth_drop_Suc)
  next
    case False
    then show ?thesis
      by (subst for_of.simps) (simp add: it_next_def)
  qed
qed

text \<open>
  C9. Once \<^verbatim>\<open>next()\<close> reports done, the cursor is back at 0 and not left past the end:
  the object is again what \<^verbatim>\<open>new Iterator(es)\<close> built. A loop run to the end of a fresh
  iterator sees every element, leaves the cursor at 0, a following \<^verbatim>\<open>peek()\<close> returns
  what it returns on a fresh iterator (the first element, when there is one), and a
  second loop sees the same elements again from the first one.
\<close>

theorem iterator_done_resets_cursor:
  "it_next \<lparr>elements = es, index = length es\<rparr> = (None, Iterator es)
   \<and> for_of (Iterator es) = (es, Iterator es)
   \<and> index (snd (for_of (Iterator es))) = 0
   \<and> peek (snd (for_of (Iterator es))) = (case es of [] \<Rightarrow> None | e # _ \<Rightarrow> Some e)
   \<and> fst (for_of (snd (for_of (Iterator es)))) = es"
  by (simp add: for_of_result it_next_def Iterator_def peek_def split: list.splits)

section \<open>The rows of show (claims C1, C2, C3 and C6)\<close>

text \<open>
  C1, as amended. In \<^verbatim>\<open>src/index.js\<close> the end of the last task entry of a file (the last
  line, or the line before the empty string that the final end of line leaves in the split)
  is the clock, whatever the day is, also for a day in the past; the label of its row
  begins with \<^verbatim>\<open>~\<close>, and when the time of the entry is read as the instant \<open>start\<close> the
  label is the duration from \<open>start\<close> to the clock. The earlier variant of the program ends
  the entry at the clock or at the last millisecond of the day in local time, whichever is
  earlier, and logs the label without a mark. \<open>d\<close> is the instant the day key denotes.
\<close>

theorem last_entry_ends_now:
  assumes "split entry ''|'' = type # time # project # task # id' # rest" "type \<noteq> ''break''"
  shows "valueOf (endTime h day None) = Some (now h) \<and> valueOf (endTime h day (Some [])) = Some (now h)
    \<and> (\<exists>label. show_entries h day \<lparr>elements = pre @ [entry], index = length pre\<rparr> logged =
          (None, logged @ [Row (''~'' @ label) (Some project) (Some id') (Some task)]))
    \<and> (\<exists>label. show_entries h day \<lparr>elements = pre @ [entry, []], index = length pre\<rparr> logged =
          (None, logged @ [Row (''~'' @ label) (Some project) (Some id') (Some task)]))
    \<and> (valueOf (moment_utc (day @ '' '' @ time)) = Some start \<longrightarrow>
          show_entries h day \<lparr>elements = pre @ [entry], index = length pre\<rparr> logged =
            (None, logged @ [Row (''~'' @ number_text (adjusted (Some (now h - start))) @ ''h'')
                               (Some project) (Some id') (Some task)])
          \<and> show_entries h day \<lparr>elements = pre @ [entry, []], index = length pre\<rparr> logged =
            (None, logged @ [Row (''~'' @ number_text (adjusted (Some (now h - start))) @ ''h'')
                               (Some project) (Some id') (Some task)]))
    \<and> (parse_date day = Some d \<longrightarrow>
         valueOf (endTime_variant h day None) = Some (min (now h) (d - localOffset h + 86399999)))
    \<and> (parse_date day = Some d \<and> valueOf (moment_local h (day @ '' '' @ time)) = Some local_start \<longrightarrow>
         show_entry_variant h day entry None =
           Inr (Some (Row (number_text (adjusted
                             (Some (min (now h) (d - localOffset h + 86399999) - local_start))) @ ''h'')
                          (Some project) (Some id') (Some task))))"
proof -
  have e: "valueOf (endTime h day None) = Some (now h)" "valueOf (endTime h day (Some [])) = Some (now h)"
    by (simp_all add: endTime_no_next truthy_def)
  note f = show_entries_final [OF assms, of h day pre logged]
  have 1: "\<exists>label. show_entries h day \<lparr>elements = pre @ [entry], index = length pre\<rparr> logged =
          (None, logged @ [Row (''~'' @ label) (Some project) (Some id') (Some task)])"
    unfolding f(1) by blast
  have 2: "\<exists>label. show_entries h day \<lparr>elements = pre @ [entry, []], index = length pre\<rparr> logged =
          (None, logged @ [Row (''~'' @ label) (Some project) (Some id') (Some task)])"
    unfolding f(2) by blast
  have 3: "show_entries h day \<lparr>elements = pre @ [entry], index = length pre\<rparr> logged =
            (None, logged @ [Row (''~'' @ number_text (adjusted (Some (now h - start))) @ ''h'')
                               (Some project) (Some id') (Some task)])
          \<and> show_entries h day \<lparr>elements = pre @ [entry, []], index = length pre\<rparr> logged =
            (None, logged @ [Row (''~'' @ number_text (adjusted (Some (now h - start))) @ ''h'')
                               (Some project) (Some id') (Some task)])"
    if "valueOf (moment_utc (day @ '' '' @ time)) = Some start"
    unfolding f using that by (simp add: diff_def)
  have 4: "valueOf (endTime_variant h day None) = Some (min (now h) (d - localOffset h + 86399999))"
    if "parse_date day = Some d"
    using that by (rule endTime_variant_no_next)
  have 5: "show_entry_variant h day entry None =
           Inr (Some (Row (number_text (adjusted
                             (Some (min (now h) (d - localOffset h + 86399999) - local_start))) @ ''h'')
                          (Some project) (Some id') (Some task)))"
    if "parse_date day = Some d \<and> valueOf (moment_local h (day @ '' '' @ time)) = Some local_start"
    unfolding show_entry_variant_task [OF assms]
    using that endTime_variant_no_next [of day d h] by (simp add: diff_def)
  show ?thesis using e 1 2 3 4 5 by blast
qed

theorem last_entry_ends_now_witness:
  "show_entries example_host ''2018-06-17'' \<lparr>elements = [''task|09:30:00|B|b|true'', ''''], index = 0\<rparr> [] =
     (None, [Row ''~0.5h'' (Some ''B'') (Some ''true'') (Some ''b'')])
   \<and> valueOf (endTime_variant example_host ''2018-06-17'' None) = Some 1529229600000
   \<and> show_entry_variant example_host ''2018-06-17'' ''task|09:30:00|B|b|true'' None =
       Inr (Some (Row ''2.5h'' (Some ''B'') (Some ''true'') (Some ''b'')))"
proof -
  have s: "split ''task|09:30:00|B|b|true'' ''|'' = ''task'' # ''09:30:00'' # ''B'' # ''b'' # ''true'' # []"
    "''task'' \<noteq> ''break''"
    by (simp_all add: split_def)
  have t: "valueOf (moment_utc (''2018-06-17'' @ '' '' @ ''09:30:00'')) = Some 1529227800000"
    by (simp add: example_times)
  have p: "parse_date ''2018-06-17'' = Some 1529193600000"
    by code_simp
  have n: "now example_host = 1529229600000" "localOffset example_host = 7200000"
    by (simp_all add: example_host_def)
  have l: "valueOf (moment_local example_host (''2018-06-17'' @ '' '' @ ''09:30:00'')) = Some 1529220600000"
    using t by (simp add: moment_local_def moment_utc_def n)
  have k: "number_text (adjusted (Some 9000000)) = ''2.5''"
    by (simp add: label_text nat_text_1 digit_char_def)
  show ?thesis
    using last_entry_ends_now [OF s, where h = example_host and day = "''2018-06-17''" and pre = "[]"
        and logged = "[]" and start = 1529227800000 and d = 1529193600000
        and local_start = 1529220600000] t p l
    by (simp add: n example_labels k)
qed

theorem last_entry_ends_now_counterexample:
  "format_date (moment_now example_host) = ''2018-06-17''
   \<and> show_entries example_host ''2018-06-15'' (Iterator [''task|09:00:00|A|a|'', '''']) [] =
       (None, [Row ''~49h'' (Some ''A'') (Some []) (Some ''a'')])
   \<and> valueOf (endTime example_host ''2018-06-15'' (Some [])) = Some 1529229600000
   \<and> valueOf (moment_utc ''2018-06-15 23:59:59'') = Some 1529107199000
   \<and> number_text (adjusted (diff (moment_utc ''2018-06-15 23:59:59'')
                                  (moment_utc ''2018-06-15 09:00:00''))) = ''15''"
proof -
  have 1: "format_date (moment_now example_host) = ''2018-06-17''"
    by code_simp
  have 2: "valueOf (endTime example_host ''2018-06-15'' (Some [])) = Some 1529229600000"
    by (simp add: endTime_no_next truthy_def example_host_def)
  show ?thesis
    using 1 2 example_day_15 [of "[]"]
    by (simp add: example_times diff_def example_labels)
qed

text \<open>
  C2. For a task entry whose start and end both resolve, the label of its row is the text
  of \<open>max (round (hours * 2) / 2) (1 / 2)\<close>, where \<open>hours\<close> is the time from start to end in
  hours, followed by \<^verbatim>\<open>h\<close> (and marked when the end is the clock). That number is the nearest
  multiple of one half, a half rounded up, and never less than one half: a gap of 17
  minutes gives 0.5, written \<^verbatim>\<open>0.5\<close>, a gap of 46 minutes gives 1, written \<^verbatim>\<open>1\<close>, and a gap
  of nothing or of one hour backwards gives 0.5.
\<close>

theorem duration_rounding:
  assumes "split entry ''|'' = type # time # project # task # id' # rest" "type \<noteq> ''break''"
    and "valueOf (moment_utc (day @ '' '' @ time)) = Some start"
    and "valueOf (endTime h day nextEntry) = Some finish"
  shows "show_entry h day entry nextEntry =
       Inr (Some (Row ((if truthy nextEntry then [] else ''~'')
                        @ number_text (Some (max (of_int (round (of_int (finish - start) / 3600000 * 2 :: rat)) / 2)
                                                 (1 / 2))) @ ''h'')
                      (Some project) (Some id') (Some task)))
    \<and> (max (of_int (round (of_int (finish - start) / 3600000 * 2 :: rat)) / 2) (1 / 2) :: rat) =
        of_int (max ((finish - start + 900000) div 1800000) 1) / 2
    \<and> (1 / 2 :: rat) \<le> max (of_int (round (of_int (finish - start) / 3600000 * 2 :: rat)) / 2) (1 / 2)
    \<and> adjusted (Some (17 * 60000)) = Some (1 / 2) \<and> number_text (Some (1 / 2)) = ''0.5''
    \<and> adjusted (Some (46 * 60000)) = Some 1 \<and> number_text (Some 1) = ''1''
    \<and> adjusted (Some 0) = Some (1 / 2) \<and> adjusted (Some (- 3600000)) = Some (1 / 2)"
proof -
  have d: "diff (endTime h day nextEntry) (moment_utc (day @ '' '' @ time)) = Some (finish - start)"
    using assms(3,4) by (simp add: diff_def)
  have a: "adjusted (Some (finish - start)) =
      Some (max (of_int (round (of_int (finish - start) / 3600000 * 2 :: rat)) / 2) (1 / 2))"
    by (simp only: adjusted_def option.map)
  have r: "show_entry h day entry nextEntry =
       Inr (Some (Row ((if truthy nextEntry then [] else ''~'')
                        @ number_text (Some (max (of_int (round (of_int (finish - start) / 3600000 * 2 :: rat)) / 2)
                                                 (1 / 2))) @ ''h'')
                      (Some project) (Some id') (Some task)))"
    unfolding show_entry_task [OF assms(1,2)] d a ..
  have i: "(max (of_int (round (of_int (finish - start) / 3600000 * 2 :: rat)) / 2) (1 / 2) :: rat) =
        of_int (max ((finish - start + 900000) div 1800000) 1) / 2"
    using adjusted_int [of "finish - start"] unfolding a by (simp only: option.inject)
  have e: "adjusted (Some (17 * 60000)) = Some (1 / 2)" "adjusted (Some (46 * 60000)) = Some 1"
    "adjusted (Some 0) = Some (1 / 2)" "adjusted (Some (- 3600000)) = Some (1 / 2)"
    by (simp_all add: adjusted_int)
  have n: "number_text (Some (1 / 2)) = ''0.5''" "number_text (Some 1) = ''1''"
    using number_text_half [of 1] number_text_half [of 2]
    by (simp_all add: nat_text_1 digit_char_def)
  have g: "(1 / 2 :: rat) \<le> max (of_int (round (of_int (finish - start) / 3600000 * 2 :: rat)) / 2) (1 / 2)"
    by (rule max.cobounded2)
  show ?thesis using r i g e n by (simp only: simp_thms)
qed

theorem duration_rounding_witness:
  "show_entry example_host ''2018-06-15'' ''task|09:00:00|A|a|'' (Some ''task|09:46:00|B|b|'') =
     Inr (Some (Row ''1h'' (Some ''A'') (Some []) (Some ''a'')))"
proof -
  have s: "split ''task|09:00:00|A|a|'' ''|'' = ''task'' # ''09:00:00'' # ''A'' # ''a'' # [] # []"
    "''task'' \<noteq> ''break''"
    by (simp_all add: split_def)
  have t: "valueOf (moment_utc (''2018-06-15'' @ '' '' @ ''09:00:00'')) = Some 1529053200000"
    "valueOf (endTime example_host ''2018-06-15'' (Some ''task|09:46:00|B|b|'')) = Some 1529055960000"
    by (simp_all add: example_times endTime_next example_split elem_def str_def)
  have n: "number_text (Some (of_int (max ((1529055960000 - 1529053200000 + 900000) div 1800000) 1) / 2))
      = ''1''"
    using number_text_half [of 2] by (simp add: nat_text_1 digit_char_def)
  note w = duration_rounding [OF s t]
  have "show_entry example_host ''2018-06-15'' ''task|09:00:00|A|a|'' (Some ''task|09:46:00|B|b|'') =
       Inr (Some (Row ((if truthy (Some ''task|09:46:00|B|b|'') then [] else ''~'')
                        @ number_text (Some (of_int (max ((1529055960000 - 1529053200000 + 900000) div 1800000) 1) / 2))
                        @ ''h'')
                      (Some ''A'') (Some []) (Some ''a'')))"
    using w by (simp only:)
  then show ?thesis
    unfolding n by (simp add: truthy_def)
qed






section \<open>The days of show (claim C7)\<close>

text \<open>
  C7, as amended. When the file of a day cannot be read, the line of the day has been
  logged already (the program logs it before it reads the file), no row follows it, the
  error is logged under \<^verbatim>\<open>--verbose\<close> and the loop goes on with the next day: the day is
  not left out of the output. What is logged for a day depends on that day alone, every
  resolved day is attempted, and the lines of the days appear in the order of the days,
  whatever failed before. \<open>day_output\<close> is what one day adds to the output.
\<close>

theorem missing_day_is_logged:
  "(readFile st (day @ ''.txt'') = Inl e \<longrightarrow>
      try_day h st day = (Some e, [Day day])
      \<and> day_output h st verbose day = Day day # (if verbose then [Err e] else [])
      \<and> show_days h st verbose (before @ day # after) logged =
          show_days h st verbose after
            (show_days h st verbose before logged @ Day day # (if verbose then [Err e] else [])))
   \<and> show_days h st verbose days logged = logged @ concat (map (day_output h st verbose) days)
   \<and> show_action h st verbose startArg endArg =
        Header # concat (map (day_output h st verbose) (resolveDays h startArg endArg))
   \<and> (\<exists>rows. day_output h st False day = Day day # rows \<and> (\<forall>r \<in> set rows. is_row r))
   \<and> filter is_day (show_action h st verbose startArg endArg) =
        map Day (resolveDays h startArg endArg)"
proof -
  have a: "try_day h st day = (Some e, [Day day])
      \<and> day_output h st verbose day = Day day # (if verbose then [Err e] else [])
      \<and> show_days h st verbose (before @ day # after) logged =
          show_days h st verbose after
            (show_days h st verbose before logged @ Day day # (if verbose then [Err e] else []))"
    if "readFile st (day @ ''.txt'') = Inl e"
    using try_day_missing [OF that, of h]
    by (simp add: show_days_append day_output_def)
  have b: "show_days h st verbose days logged = logged @ concat (map (day_output h st verbose) days)"
    by (rule show_days_concat)
  have c: "show_action h st verbose startArg endArg =
        Header # concat (map (day_output h st verbose) (resolveDays h startArg endArg))"
    by (simp add: show_action_def show_days_concat)
  have d: "\<exists>rows. day_output h st False day = Day day # rows \<and> (\<forall>r \<in> set rows. is_row r)"
    using try_day_rows [of h st day]
    by (cases "try_day h st day") (auto simp: day_output_def split: option.splits)
  have f: "filter is_day (show_action h st verbose startArg endArg) =
        map Day (resolveDays h startArg endArg)"
    by (simp add: show_action_def show_days_days is_day_def)
  show ?thesis using a b c d f by blast
qed

theorem missing_day_is_logged_witness:
  "show_days example_host example_store True [''2018-06-15'', ''2018-06-16'', ''2018-06-17''] [Header] =
     [Header,
      Day ''2018-06-15'', Row ''~49h'' (Some ''A'') (Some []) (Some ''a''),
      Day ''2018-06-16'', Err ENOENT,
      Day ''2018-06-17'', Row ''~0.5h'' (Some ''B'') (Some ''true'') (Some ''b'')]"
proof -
  have r: "readFile example_store (''2018-06-16'' @ ''.txt'') = Inl ENOENT"
    by (simp add: example_files)
  have 1: "show_days example_host example_store True [''2018-06-15''] [Header] =
      [Header, Day ''2018-06-15'', Row ''~49h'' (Some ''A'') (Some []) (Some ''a'')]"
    by (simp add: example_try_day)
  have 3: "show_days example_host example_store True [''2018-06-17'']
        [Header, Day ''2018-06-15'', Row ''~49h'' (Some ''A'') (Some []) (Some ''a''),
         Day ''2018-06-16'', Err ENOENT] =
     [Header,
      Day ''2018-06-15'', Row ''~49h'' (Some ''A'') (Some []) (Some ''a''),
      Day ''2018-06-16'', Err ENOENT,
      Day ''2018-06-17'', Row ''~0.5h'' (Some ''B'') (Some ''true'') (Some ''b'')]"
    by (simp add: example_try_day)
  have "show_days example_host example_store True ([''2018-06-15''] @ ''2018-06-16'' # [''2018-06-17''])
          [Header] =
        show_days example_host example_store True [''2018-06-17'']
          (show_days example_host example_store True [''2018-06-15''] [Header]
             @ Day ''2018-06-16'' # (if True then [Err ENOENT] else []))"
    using missing_day_is_logged [where st = example_store and day = "''2018-06-16''" and e = ENOENT
        and h = example_host and verbose = True and before = "[''2018-06-15'']"
        and after = "[''2018-06-17'']" and logged = "[Header]"] r
    by blast
  then show ?thesis
    unfolding 1 by (simp only: append.simps if_True 3)
qed

theorem missing_day_is_logged_counterexample:
  "resolveDays example_host (Some ''2018-06-15'') (Some ''2018-06-17'') =
     [''2018-06-15'', ''2018-06-16'', ''2018-06-17'']
   \<and> readFile example_store ''2018-06-16.txt'' = Inl ENOENT
   \<and> show_action example_host example_store False (Some ''2018-06-15'') (Some ''2018-06-17'') =
     [Header,
      Day ''2018-06-15'', Row ''~49h'' (Some ''A'') (Some []) (Some ''a''),
      Day ''2018-06-16'',
      Day ''2018-06-17'', Row ''~0.5h'' (Some ''B'') (Some ''true'') (Some ''b'')]
   \<and> Day ''2018-06-16'' \<in> set (show_action example_host example_store False
                                  (Some ''2018-06-15'') (Some ''2018-06-17''))"
proof -
  have "show_action example_host example_store False (Some ''2018-06-15'') (Some ''2018-06-17'') =
     [Header,
      Day ''2018-06-15'', Row ''~49h'' (Some ''A'') (Some []) (Some ''a''),
      Day ''2018-06-16'',
      Day ''2018-06-17'', Row ''~0.5h'' (Some ''B'') (Some ''true'') (Some ''b'')]"
    by (simp add: show_action_def example_days example_try_day)
  then show ?thesis
    by (simp add: example_days example_files)
qed

end
